theory Spec2Isabelle
  imports Main "HOL-Library.AList"
begin

section \<open>Sorted-list primitives (tinyflux.utils)\<close>

text \<open>
  Modelled from the spec: \<open>tinyflux/utils.py\<close> (\<open>find_eq\<close>, \<open>find_lt\<close>, \<open>find_le\<close>,
  \<open>find_gt\<close>, \<open>find_ge\<close>, \<open>union_two_sorted_lists\<close>, \<open>intersection_two_sorted_lists\<close>,
  \<open>difference_generator_and_sorted_lists\<close>) is imported by \<open>index.py\<close> but is not among
  the sources. The spec (4.1) describes the five searches as binary searches over an
  ascending sequence: \<open>eq\<close> returns the index of an occurrence (the lowest one here),
  \<open>lt\<close>/\<open>le\<close> the highest index satisfying the comparison, \<open>gt\<close>/\<open>ge\<close> the lowest one,
  and "not found" otherwise. They are written as the two bisections over the index
  window \<open>[lo, hi)\<close>.
\<close>

function bisect_left :: "'a::linorder list \<Rightarrow> 'a \<Rightarrow> nat \<Rightarrow> nat \<Rightarrow> nat" where
  "bisect_left a x lo hi =
     (if lo < hi then
        (let mid = (lo + hi) div 2 in
         if a ! mid < x then bisect_left a x (mid + 1) hi
         else bisect_left a x lo mid)
      else lo)"
  by pat_completeness auto
termination
  by (relation "measure (\<lambda>(a, x, lo, hi). hi - lo)") auto

function bisect_right :: "'a::linorder list \<Rightarrow> 'a \<Rightarrow> nat \<Rightarrow> nat \<Rightarrow> nat" where
  "bisect_right a x lo hi =
     (if lo < hi then
        (let mid = (lo + hi) div 2 in
         if x < a ! mid then bisect_right a x lo mid
         else bisect_right a x (mid + 1) hi)
      else lo)"
  by pat_completeness auto
termination
  by (relation "measure (\<lambda>(a, x, lo, hi). hi - lo)") auto

declare bisect_left.simps [simp del]
declare bisect_right.simps [simp del]

definition find_eq :: "'a::linorder list \<Rightarrow> 'a \<Rightarrow> nat option" where
  "find_eq a x =
     (let i = bisect_left a x 0 (length a)
      in if i \<noteq> length a \<and> a ! i = x then Some i else None)"

definition find_lt :: "'a::linorder list \<Rightarrow> 'a \<Rightarrow> nat option" where
  "find_lt a x =
     (let i = bisect_left a x 0 (length a)
      in if i \<noteq> 0 then Some (i - 1) else None)"

definition find_le :: "'a::linorder list \<Rightarrow> 'a \<Rightarrow> nat option" where
  "find_le a x =
     (let i = bisect_right a x 0 (length a)
      in if i \<noteq> 0 then Some (i - 1) else None)"

definition find_gt :: "'a::linorder list \<Rightarrow> 'a \<Rightarrow> nat option" where
  "find_gt a x =
     (let i = bisect_right a x 0 (length a)
      in if i \<noteq> length a then Some i else None)"

definition find_ge :: "'a::linorder list \<Rightarrow> 'a \<Rightarrow> nat option" where
  "find_ge a x =
     (let i = bisect_left a x 0 (length a)
      in if i \<noteq> length a then Some i else None)"

text \<open>
  Modelled from the spec: the three set operations of \<open>tinyflux/utils.py\<close> (not among the
  sources) are, by the spec (4.1), merge-style passes over two ascending duplicate-free
  position sequences. The difference takes the ascending universe first and the
  ascending exclude list second; the spec calls its result a lazy sequence, which is
  the list of the values it yields.
\<close>

fun union_two_sorted_lists :: "int list \<Rightarrow> int list \<Rightarrow> int list" where
  "union_two_sorted_lists [] ys = ys"
| "union_two_sorted_lists xs [] = xs"
| "union_two_sorted_lists (x # xs) (y # ys) =
     (if x < y then x # union_two_sorted_lists xs (y # ys)
      else if y < x then y # union_two_sorted_lists (x # xs) ys
      else x # union_two_sorted_lists xs ys)"

fun intersection_two_sorted_lists :: "int list \<Rightarrow> int list \<Rightarrow> int list" where
  "intersection_two_sorted_lists [] ys = []"
| "intersection_two_sorted_lists xs [] = []"
| "intersection_two_sorted_lists (x # xs) (y # ys) =
     (if x < y then intersection_two_sorted_lists xs (y # ys)
      else if y < x then intersection_two_sorted_lists (x # xs) ys
      else x # intersection_two_sorted_lists xs ys)"

fun difference_generator_and_sorted_lists :: "int list \<Rightarrow> int list \<Rightarrow> int list" where
  "difference_generator_and_sorted_lists [] ys = []"
| "difference_generator_and_sorted_lists xs [] = xs"
| "difference_generator_and_sorted_lists (x # xs) (y # ys) =
     (if x < y then x # difference_generator_and_sorted_lists xs (y # ys)
      else if y < x then difference_generator_and_sorted_lists (x # xs) ys
      else difference_generator_and_sorted_lists xs ys)"

text \<open>Python's \<open>range(n)\<close> and \<open>range(lo, hi)\<close> as lists of positions.\<close>

definition range1 :: "int \<Rightarrow> int list" where
  "range1 n = map int [0..<nat n]"

definition range2 :: "nat \<Rightarrow> nat \<Rightarrow> int list" where
  "range2 lo hi = map int [lo..<hi]"

section \<open>IndexResult\<close>

record index_result =
  items :: "int list"
  is_complete :: bool
  index_count :: int

definition invert :: "index_result \<Rightarrow> index_result" where
  "invert r =
     \<lparr>items = difference_generator_and_sorted_lists (range1 (index_count r)) (items r),
      is_complete = is_complete r,
      index_count = index_count r\<rparr>"

definition and_result :: "index_result \<Rightarrow> index_result \<Rightarrow> index_result" where
  "and_result r other =
     \<lparr>items = intersection_two_sorted_lists (items r) (items other),
      is_complete = (is_complete r \<and> is_complete other),
      index_count = index_count r\<rparr>"

definition or_result :: "index_result \<Rightarrow> index_result \<Rightarrow> index_result" where
  "or_result r other =
     \<lparr>items = union_two_sorted_lists (items r) (items other),
      is_complete = (is_complete r \<and> is_complete other),
      index_count = index_count r\<rparr>"


section \<open>Points, queries and the index state\<close>

text \<open>
  A point as the index reads it: \<open>point.time.timestamp()\<close>, \<open>point.measurement\<close>,
  \<open>point.tags\<close> and \<open>point.fields\<close>. Timestamps are compared with \<open>==\<close>, \<open><\<close> only, so
  they are values of any linear order. A Python dict is an association list in
  insertion order; a well-formed dict has distinct keys.
\<close>

record 't point =
  time :: 't
  measurement :: string
  point_tags :: "(string \<times> string) list"
  point_fields :: "(string \<times> string) list"

type_synonym posting_dict = "(string \<times> int list) list"

type_synonym tag_dict = "(string \<times> posting_dict) list"

record 't index =
  num_items :: int
  tags :: tag_dict
  fields_idx :: posting_dict
  measurements :: posting_dict
  timestamps :: "'t list"
  valid :: bool

text \<open>
  The exceptions that leave a method of the index, named by where they are raised:
  \<open>TypeError\<close> is raised by \<open>_search_helper\<close> itself, \<open>KeyError\<close> by \<open>u_items[i]\<close>,
  \<open>ResolverError\<close> is any exception of \<open>query._path_resolver\<close>, \<open>TestError\<close> any
  exception of \<open>query._test\<close>, \<open>TimestampError\<close> the exception of
  \<open>datetime.fromtimestamp\<close> on a timestamp it cannot convert, and \<open>RhsError\<close> any
  exception of \<open>rhs.timestamp()\<close>.
\<close>

datatype py_error =
  TypeError | KeyError | ResolverError | TestError | TimestampError | RhsError

text \<open>
  The query classes of \<open>tinyflux.queries\<close> are not among the sources; \<open>index.py\<close> reads
  from a \<open>SimpleQuery\<close> its \<open>_point_attr\<close>, \<open>_operator\<close>, \<open>_rhs\<close> (through
  \<open>rhs.timestamp()\<close>), \<open>_path_resolver\<close> and \<open>_test\<close>, and from a \<open>CompoundQuery\<close> its
  \<open>operator\<close>, \<open>query1\<close> and \<open>query2\<close>. The resolver and the test are parameters of
  the leaf. The resolver is called on a measurement name, on a one-entry dict or on
  a time; the test is called on what the resolver returns. Either may raise: \<open>None\<close>
  is a call that raises. Of \<open>_rhs\<close> the index calls \<open>rhs.timestamp()\<close> only, and only in
  the time search: the leaf holds the outcome of that call, the timestamp or \<open>None\<close>
  when the call raises (a right-hand side that is no time, for one). \<open>NoQuery\<close> is
  any object that is neither class (\<open>None\<close> as the second child of a negation, for
  one).
\<close>

datatype cmp_op = op_eq | op_ne | op_lt | op_le | op_gt | op_ge | op_other

datatype logic_op = op_and | op_or | op_not | op_unknown

datatype 't py_arg = PStr string | PDict "(string \<times> string) list" | PTime 't

datatype 't query =
    SimpleQuery string cmp_op "'t option" "'t py_arg \<Rightarrow> 't py_arg option"
      "'t py_arg \<Rightarrow> bool option"
  | CompoundQuery logic_op "'t query" "'t query"
  | NoQuery

section \<open>Index maintenance\<close>

definition Index :: "bool \<Rightarrow> 't index" where
  "Index v =
     \<lparr>num_items = 0, tags = [], fields_idx = [], measurements = [], timestamps = [], valid = v\<rparr>"

definition reset :: "'t index \<Rightarrow> 't index" where
  "reset s =
     s\<lparr>num_items := 0, tags := [], fields_idx := [], measurements := [], timestamps := [],
       valid := True\<rparr>"

text \<open>\<open>d[key] = [idx]\<close> for a new key, \<open>d[key].append(idx)\<close> otherwise.\<close>

definition append_posting :: "string \<Rightarrow> int \<Rightarrow> posting_dict \<Rightarrow> posting_dict" where
  "append_posting key idx d =
     (case map_of d key of
        None \<Rightarrow> AList.update key [idx] d
      | Some old_items \<Rightarrow> AList.update key (old_items @ [idx]) d)"

fun insert_fields :: "int \<Rightarrow> (string \<times> string) list \<Rightarrow> 't index \<Rightarrow> 't index" where
  "insert_fields idx [] s = s"
| "insert_fields idx ((field_key, v) # rest) s =
     insert_fields idx rest (s\<lparr>fields_idx := append_posting field_key idx (fields_idx s)\<rparr>)"

definition insert_measurements :: "int \<Rightarrow> string \<Rightarrow> 't index \<Rightarrow> 't index" where
  "insert_measurements idx m s = s\<lparr>measurements := append_posting m idx (measurements s)\<rparr>"

text \<open>
  A new tag key first gets the empty dict, which then receives the value; both steps
  are the \<open>None\<close> case.
\<close>

definition insert_tag :: "int \<Rightarrow> string \<Rightarrow> string \<Rightarrow> tag_dict \<Rightarrow> tag_dict" where
  "insert_tag idx tag_key tag_value d =
     (case map_of d tag_key of
        None \<Rightarrow> AList.update tag_key (append_posting tag_value idx []) d
      | Some vals \<Rightarrow> AList.update tag_key (append_posting tag_value idx vals) d)"

fun insert_tags :: "int \<Rightarrow> (string \<times> string) list \<Rightarrow> 't index \<Rightarrow> 't index" where
  "insert_tags idx [] s = s"
| "insert_tags idx ((tag_key, tag_value) # rest) s =
     insert_tags idx rest (s\<lparr>tags := insert_tag idx tag_key tag_value (tags s)\<rparr>)"

definition insert_time :: "'t \<Rightarrow> 't index \<Rightarrow> 't index" where
  "insert_time t s = s\<lparr>timestamps := timestamps s @ [t]\<rparr>"

text \<open>
  The loop body shared by \<open>build\<close> and \<open>insert\<close>; \<open>new_idx\<close> is \<open>idx\<close> of the
  enumeration in \<open>build\<close> and \<open>start_idx + idx\<close> in \<open>insert\<close>.
\<close>

definition index_point :: "int \<Rightarrow> 't point \<Rightarrow> 't index \<Rightarrow> 't index" where
  "index_point new_idx p s =
     insert_measurements new_idx (measurement p)
       (insert_fields new_idx (point_fields p)
         (insert_tags new_idx (point_tags p)
           (insert_time (time p) (s\<lparr>num_items := num_items s + 1\<rparr>))))"

fun index_points :: "int \<Rightarrow> 't point list \<Rightarrow> 't index \<Rightarrow> 't index" where
  "index_points new_idx [] s = s"
| "index_points new_idx (p # ps) s = index_points (new_idx + 1) ps (index_point new_idx p s)"

definition build :: "'t point list \<Rightarrow> 't index \<Rightarrow> 't index" where
  "build points s = index_points 0 points (reset s)"

definition insert_index :: "'t point list \<Rightarrow> 't index \<Rightarrow> 't index" where
  "insert_index points s =
     (let start_idx = int (length (timestamps s)) in index_points start_idx points s)"

definition invalidate :: "'t index \<Rightarrow> 't index" where
  "invalidate s = (reset s)\<lparr>valid := False\<rparr>"

subsection \<open>remove\<close>

definition keep_items :: "int set \<Rightarrow> int list \<Rightarrow> int list" where
  "keep_items r_items old_items = filter (\<lambda>i. i \<notin> r_items) old_items"

fun remove_postings :: "int set \<Rightarrow> posting_dict \<Rightarrow> posting_dict \<Rightarrow> posting_dict" where
  "remove_postings r_items [] new = new"
| "remove_postings r_items ((key, old_items) # rest) new =
     (let new_items = keep_items r_items old_items
      in remove_postings r_items rest
           (if new_items \<noteq> [] then AList.update key new_items new else new))"

definition remove_fields :: "int set \<Rightarrow> 't index \<Rightarrow> 't index" where
  "remove_fields r_items s = s\<lparr>fields_idx := remove_postings r_items (fields_idx s) []\<rparr>"

definition remove_measurements :: "int set \<Rightarrow> 't index \<Rightarrow> 't index" where
  "remove_measurements r_items s =
     s\<lparr>measurements := remove_postings r_items (measurements s) []\<rparr>"

fun remove_tag_values :: "int set \<Rightarrow> string \<Rightarrow> posting_dict \<Rightarrow> tag_dict \<Rightarrow> tag_dict" where
  "remove_tag_values r_items tag_key [] new_tags = new_tags"
| "remove_tag_values r_items tag_key ((v, old_items) # rest) new_tags =
     (let new_items = keep_items r_items old_items
      in if new_items = [] then remove_tag_values r_items tag_key rest new_tags
         else remove_tag_values r_items tag_key rest
                (case map_of new_tags tag_key of
                   None \<Rightarrow> AList.update tag_key [(v, new_items)] new_tags
                 | Some d \<Rightarrow> AList.update tag_key (AList.update v new_items d) new_tags))"

fun remove_tags_loop :: "int set \<Rightarrow> tag_dict \<Rightarrow> tag_dict \<Rightarrow> tag_dict" where
  "remove_tags_loop r_items [] new_tags = new_tags"
| "remove_tags_loop r_items ((tag_key, tag_values) # rest) new_tags =
     remove_tags_loop r_items rest (remove_tag_values r_items tag_key tag_values new_tags)"

definition remove_tags :: "int set \<Rightarrow> 't index \<Rightarrow> 't index" where
  "remove_tags r_items s = s\<lparr>tags := remove_tags_loop r_items (tags s) []\<rparr>"

definition remove_timestamps :: "int set \<Rightarrow> 't index \<Rightarrow> 't index" where
  "remove_timestamps r_items s =
     s\<lparr>timestamps :=
         map snd (filter (\<lambda>(i, ts). int i \<notin> r_items) (enumerate 0 (timestamps s)))\<rparr>"

definition remove_index :: "int set \<Rightarrow> 't index \<Rightarrow> 't index" where
  "remove_index r_items s =
     (let s1 = remove_timestamps r_items s;
          s2 = remove_measurements r_items s1;
          s3 = remove_tags r_items s2;
          s4 = remove_fields r_items s3
      in s4\<lparr>num_items := num_items s4 - int (card r_items)\<rparr>)"

subsection \<open>update\<close>

text \<open>
  \<open>u_items[i]\<close> raises \<open>KeyError\<close> on a missing key. The exception leaves \<open>update\<close>
  at once; the model returns the error alone, not the partly rewritten index.
\<close>

fun lookup_items :: "(int \<rightharpoonup> int) \<Rightarrow> int list \<Rightarrow> py_error + int list" where
  "lookup_items u_items [] = Inr []"
| "lookup_items u_items (i # rest) =
     (case u_items i of
        None \<Rightarrow> Inl KeyError
      | Some j \<Rightarrow>
          (case lookup_items u_items rest of
             Inl e \<Rightarrow> Inl e
           | Inr updated_items \<Rightarrow> Inr (j # updated_items)))"

fun update_postings :: "(int \<rightharpoonup> int) \<Rightarrow> posting_dict \<Rightarrow> py_error + posting_dict" where
  "update_postings u_items [] = Inr []"
| "update_postings u_items ((key, old_items) # rest) =
     (case lookup_items u_items old_items of
        Inl e \<Rightarrow> Inl e
      | Inr updated_items \<Rightarrow>
          (case update_postings u_items rest of
             Inl e \<Rightarrow> Inl e
           | Inr rest' \<Rightarrow> Inr ((key, updated_items) # rest')))"

definition update_fields :: "(int \<rightharpoonup> int) \<Rightarrow> 't index \<Rightarrow> py_error + 't index" where
  "update_fields u_items s =
     (case update_postings u_items (fields_idx s) of
        Inl e \<Rightarrow> Inl e
      | Inr d \<Rightarrow> Inr (s\<lparr>fields_idx := d\<rparr>))"

fun update_measurements_loop ::
  "(int \<rightharpoonup> int) \<Rightarrow> posting_dict \<Rightarrow> posting_dict \<Rightarrow> py_error + posting_dict" where
  "update_measurements_loop u_items [] new_measurements = Inr new_measurements"
| "update_measurements_loop u_items ((m, old_items) # rest) new_measurements =
     (case lookup_items u_items old_items of
        Inl e \<Rightarrow> Inl e
      | Inr updated_items \<Rightarrow>
          update_measurements_loop u_items rest
            (if updated_items \<noteq> [] then AList.update m updated_items new_measurements
             else new_measurements))"

definition update_measurements :: "(int \<rightharpoonup> int) \<Rightarrow> 't index \<Rightarrow> py_error + 't index" where
  "update_measurements u_items s =
     (case update_measurements_loop u_items (measurements s) [] of
        Inl e \<Rightarrow> Inl e
      | Inr d \<Rightarrow> Inr (s\<lparr>measurements := d\<rparr>))"

fun update_tags_loop :: "(int \<rightharpoonup> int) \<Rightarrow> tag_dict \<Rightarrow> py_error + tag_dict" where
  "update_tags_loop u_items [] = Inr []"
| "update_tags_loop u_items ((tag_key, tag_values) # rest) =
     (case update_postings u_items tag_values of
        Inl e \<Rightarrow> Inl e
      | Inr tag_values' \<Rightarrow>
          (case update_tags_loop u_items rest of
             Inl e \<Rightarrow> Inl e
           | Inr rest' \<Rightarrow> Inr ((tag_key, tag_values') # rest')))"

definition update_tags :: "(int \<rightharpoonup> int) \<Rightarrow> 't index \<Rightarrow> py_error + 't index" where
  "update_tags u_items s =
     (case update_tags_loop u_items (tags s) of
        Inl e \<Rightarrow> Inl e
      | Inr d \<Rightarrow> Inr (s\<lparr>tags := d\<rparr>))"

definition update_index :: "(int \<rightharpoonup> int) \<Rightarrow> 't index \<Rightarrow> py_error + 't index" where
  "update_index u_items s =
     (case update_measurements u_items s of
        Inl e \<Rightarrow> Inl e
      | Inr s1 \<Rightarrow>
          (case update_tags u_items s1 of
             Inl e \<Rightarrow> Inl e
           | Inr s2 \<Rightarrow> update_fields u_items s2))"

section \<open>Search\<close>

text \<open>
  The forward scan after \<open>find_eq\<close>: \<open>results\<close> starts as \<open>[match]\<close> and \<open>match\<close> as the
  next position; the loop stops at the first timestamp that differs.
\<close>

function scan_forward :: "'t list \<Rightarrow> 't \<Rightarrow> nat \<Rightarrow> nat list \<Rightarrow> nat list" where
  "scan_forward ts x match results =
     (if match < length ts then
        (if ts ! match \<noteq> x then results
         else scan_forward ts x (match + 1) (results @ [match]))
      else results)"
  by pat_completeness auto
termination
  by (relation "measure (\<lambda>(ts, x, match, results). length ts - match)") auto

declare scan_forward.simps [simp del]

text \<open>
  The fallback loop over \<open>enumerate(self._timestamps)\<close> for any other operator. Each
  round calls \<open>datetime.fromtimestamp\<close>, the resolver and the test, none of them inside
  a \<open>try\<close>: the first call that raises ends the search. \<open>datetime.fromtimestamp\<close> is
  a function of the library, a parameter here; it returns the time of the timestamp,
  or raises (\<open>None\<close>) on a timestamp out of its range.
\<close>

fun scan_test ::
  "('t \<Rightarrow> 't option) \<Rightarrow> ('t py_arg \<Rightarrow> 't py_arg option) \<Rightarrow> ('t py_arg \<Rightarrow> bool option) \<Rightarrow>
   nat \<Rightarrow> 't list \<Rightarrow> int list \<Rightarrow> py_error + int list" where
  "scan_test fromtimestamp resolver tst idx [] found = Inr found"
| "scan_test fromtimestamp resolver tst idx (timestamp # rest) found =
     (case fromtimestamp timestamp of
        None \<Rightarrow> Inl TimestampError
      | Some d \<Rightarrow>
          (case resolver (PTime d) of
             None \<Rightarrow> Inl ResolverError
           | Some v \<Rightarrow>
               (case tst v of
                  None \<Rightarrow> Inl TestError
                | Some b \<Rightarrow>
                    scan_test fromtimestamp resolver tst (idx + 1) rest
                      (if b then found @ [int idx] else found))))"

definition search_timestamps ::
  "('t \<Rightarrow> 't option) \<Rightarrow> 't::linorder index \<Rightarrow> cmp_op \<Rightarrow> 't option \<Rightarrow>
   ('t py_arg \<Rightarrow> 't py_arg option) \<Rightarrow> ('t py_arg \<Rightarrow> bool option) \<Rightarrow> py_error + int list" where
  "search_timestamps fromtimestamp s op rhs resolver tst =
     (case op of
        op_eq \<Rightarrow>
          (case rhs of
             None \<Rightarrow> Inl RhsError
           | Some x \<Rightarrow>
               (case find_eq (timestamps s) x of
                  None \<Rightarrow> Inr []
                | Some match \<Rightarrow>
                    Inr (map int (scan_forward (timestamps s) x (match + 1) [match]))))
      | op_ne \<Rightarrow>
          (case rhs of
             None \<Rightarrow> Inl RhsError
           | Some x \<Rightarrow>
               (case find_eq (timestamps s) x of
                  None \<Rightarrow> Inr (range1 (int (length (timestamps s))))
                | Some match \<Rightarrow>
                    Inr (difference_generator_and_sorted_lists
                           (range1 (int (length (timestamps s))))
                           (map int (scan_forward (timestamps s) x (match + 1) [match])))))
      | op_lt \<Rightarrow>
          (case rhs of
             None \<Rightarrow> Inl RhsError
           | Some x \<Rightarrow>
               (case find_lt (timestamps s) x of
                  None \<Rightarrow> Inr []
                | Some match \<Rightarrow> Inr (range1 (int match + 1))))
      | op_le \<Rightarrow>
          (case rhs of
             None \<Rightarrow> Inl RhsError
           | Some x \<Rightarrow>
               (case find_le (timestamps s) x of
                  None \<Rightarrow> Inr []
                | Some match \<Rightarrow> Inr (range1 (int match + 1))))
      | op_gt \<Rightarrow>
          (case rhs of
             None \<Rightarrow> Inl RhsError
           | Some x \<Rightarrow>
               (case find_gt (timestamps s) x of
                  None \<Rightarrow> Inr []
                | Some match \<Rightarrow> Inr (range2 match (length (timestamps s)))))
      | op_ge \<Rightarrow>
          (case rhs of
             None \<Rightarrow> Inl RhsError
           | Some x \<Rightarrow>
               (case find_ge (timestamps s) x of
                  None \<Rightarrow> Inr []
                | Some match \<Rightarrow> Inr (range2 match (length (timestamps s)))))
      | op_other \<Rightarrow> scan_test fromtimestamp resolver tst 0 (timestamps s) [])"

text \<open>
  The measurement scan calls the resolver and the test outside any \<open>try\<close>: either one
  raising ends the search. The tag scan catches every exception of the resolver and
  goes on with the next value, but calls the test after the \<open>try\<close>, so a test that
  raises ends the search. The field scan calls the resolver only, inside a \<open>try\<close>.
\<close>

fun search_measurement_loop ::
  "('t py_arg \<Rightarrow> 't py_arg option) \<Rightarrow> ('t py_arg \<Rightarrow> bool option) \<Rightarrow> posting_dict \<Rightarrow> int list \<Rightarrow>
   py_error + int list" where
  "search_measurement_loop resolver tst [] rst_items = Inr rst_items"
| "search_measurement_loop resolver tst ((key, its) # rest) rst_items =
     (case resolver (PStr key) of
        None \<Rightarrow> Inl ResolverError
      | Some test_value \<Rightarrow>
          (case tst test_value of
             None \<Rightarrow> Inl TestError
           | Some b \<Rightarrow>
               search_measurement_loop resolver tst rest
                 (if b then union_two_sorted_lists rst_items its else rst_items)))"

definition search_measurement ::
  "'t index \<Rightarrow> ('t py_arg \<Rightarrow> 't py_arg option) \<Rightarrow> ('t py_arg \<Rightarrow> bool option) \<Rightarrow>
   py_error + int list" where
  "search_measurement s resolver tst = search_measurement_loop resolver tst (measurements s) []"

fun search_tag_values ::
  "('t py_arg \<Rightarrow> 't py_arg option) \<Rightarrow> ('t py_arg \<Rightarrow> bool option) \<Rightarrow> string \<Rightarrow> posting_dict \<Rightarrow>
   int list \<Rightarrow> py_error + int list" where
  "search_tag_values resolver tst tag_key [] rst_items = Inr rst_items"
| "search_tag_values resolver tst tag_key ((v, its) # rest) rst_items =
     (case resolver (PDict [(tag_key, v)]) of
        None \<Rightarrow> search_tag_values resolver tst tag_key rest rst_items
      | Some test_value \<Rightarrow>
          (case tst test_value of
             None \<Rightarrow> Inl TestError
           | Some b \<Rightarrow>
               search_tag_values resolver tst tag_key rest
                 (if b then union_two_sorted_lists rst_items its else rst_items)))"

fun search_tags_loop ::
  "('t py_arg \<Rightarrow> 't py_arg option) \<Rightarrow> ('t py_arg \<Rightarrow> bool option) \<Rightarrow> tag_dict \<Rightarrow> int list \<Rightarrow>
   py_error + int list" where
  "search_tags_loop resolver tst [] rst_items = Inr rst_items"
| "search_tags_loop resolver tst ((tag_key, tag_values) # rest) rst_items =
     (case search_tag_values resolver tst tag_key tag_values rst_items of
        Inl e \<Rightarrow> Inl e
      | Inr rst_items' \<Rightarrow> search_tags_loop resolver tst rest rst_items')"

definition search_tags ::
  "'t index \<Rightarrow> ('t py_arg \<Rightarrow> 't py_arg option) \<Rightarrow> ('t py_arg \<Rightarrow> bool option) \<Rightarrow>
   py_error + int list" where
  "search_tags s resolver tst = search_tags_loop resolver tst (tags s) []"

fun search_fields_loop ::
  "('t py_arg \<Rightarrow> 't py_arg option) \<Rightarrow> posting_dict \<Rightarrow> int list \<Rightarrow> int list" where
  "search_fields_loop resolver [] rst_items = rst_items"
| "search_fields_loop resolver ((field_key, its) # rest) rst_items =
     (case resolver (PDict [(field_key, [])]) of
        None \<Rightarrow> search_fields_loop resolver rest rst_items
      | Some v \<Rightarrow> search_fields_loop resolver rest (union_two_sorted_lists rst_items its))"

definition search_fields :: "'t index \<Rightarrow> ('t py_arg \<Rightarrow> 't py_arg option) \<Rightarrow> int list" where
  "search_fields s resolver = search_fields_loop resolver (fields_idx s) []"

text \<open>
  \<open>_search_helper\<close> is a method of the index: it takes the index and returns it with
  the result, so that what a search does to the index is a statement about the
  returned state. An exception is \<open>Inl\<close>.
\<close>

definition is_field_leaf :: "'t query \<Rightarrow> bool" where
  "is_field_leaf q =
     (case q of SimpleQuery attr op rhs resolver tst \<Rightarrow> attr = ''_fields'' | _ \<Rightarrow> False)"

fun search_helper ::
  "('t \<Rightarrow> 't option) \<Rightarrow> 't::linorder query \<Rightarrow> 't index \<Rightarrow>
   (py_error + index_result) \<times> 't index" where
  "search_helper fromtimestamp (CompoundQuery op q1 q2) s =
     (if op = op_and then
        (case search_helper fromtimestamp q1 s of
           (Inl e, s1) \<Rightarrow> (Inl e, s1)
         | (Inr rst1, s1) \<Rightarrow>
             (case search_helper fromtimestamp q2 s1 of
                (Inl e, s2) \<Rightarrow> (Inl e, s2)
              | (Inr rst2, s2) \<Rightarrow> (Inr (and_result rst1 rst2), s2)))
      else if op = op_or then
        (case search_helper fromtimestamp q1 s of
           (Inl e, s1) \<Rightarrow> (Inl e, s1)
         | (Inr rst1, s1) \<Rightarrow>
             (case search_helper fromtimestamp q2 s1 of
                (Inl e, s2) \<Rightarrow> (Inl e, s2)
              | (Inr rst2, s2) \<Rightarrow> (Inr (or_result rst1 rst2), s2)))
      else if op = op_not then
        (case search_helper fromtimestamp q1 s of
           (Inl e, s1) \<Rightarrow> (Inl e, s1)
         | (Inr rst, s1) \<Rightarrow>
             (if is_field_leaf q1 then (Inr (rst\<lparr>items := range1 (num_items s1)\<rparr>), s1)
              else (Inr (invert rst), s1)))
      else (Inl TypeError, s))"
| "search_helper fromtimestamp (SimpleQuery attr op rhs resolver tst) s =
     (if attr = ''_time'' then
        (case search_timestamps fromtimestamp s op rhs resolver tst of
           Inl e \<Rightarrow> (Inl e, s)
         | Inr its \<Rightarrow> (Inr \<lparr>items = its, is_complete = True, index_count = num_items s\<rparr>, s))
      else if attr = ''_measurement'' then
        (case search_measurement s resolver tst of
           Inl e \<Rightarrow> (Inl e, s)
         | Inr its \<Rightarrow> (Inr \<lparr>items = its, is_complete = True, index_count = num_items s\<rparr>, s))
      else if attr = ''_tags'' then
        (case search_tags s resolver tst of
           Inl e \<Rightarrow> (Inl e, s)
         | Inr its \<Rightarrow> (Inr \<lparr>items = its, is_complete = True, index_count = num_items s\<rparr>, s))
      else if attr = ''_fields'' then
        (Inr \<lparr>items = search_fields s resolver, is_complete = False,
              index_count = num_items s\<rparr>, s)
      else (Inl TypeError, s))"
| "search_helper fromtimestamp NoQuery s = (Inl TypeError, s)"

definition search ::
  "('t \<Rightarrow> 't option) \<Rightarrow> 't::linorder query \<Rightarrow> 't index \<Rightarrow>
   (py_error + index_result) \<times> 't index" where
  "search fromtimestamp query s = search_helper fromtimestamp query s"

text \<open>
  The positions an index references, and a posting collection with every position
  replaced through a position map (read where the map covers the positions).
\<close>

definition positions_of :: "posting_dict \<Rightarrow> int set" where
  "positions_of d = (\<Union>(key, its) \<in> set d. set its)"

definition tag_positions :: "tag_dict \<Rightarrow> int set" where
  "tag_positions d = (\<Union>(tag_key, tag_values) \<in> set d. positions_of tag_values)"

definition referenced :: "'t index \<Rightarrow> int set" where
  "referenced s =
     positions_of (measurements s) \<union> tag_positions (tags s) \<union> positions_of (fields_idx s)"

definition remap_postings :: "(int \<rightharpoonup> int) \<Rightarrow> posting_dict \<Rightarrow> posting_dict" where
  "remap_postings u d = map (\<lambda>(key, its). (key, map (\<lambda>p. the (u p)) its)) d"

definition remap_tags :: "(int \<rightharpoonup> int) \<Rightarrow> tag_dict \<Rightarrow> tag_dict" where
  "remap_tags u d = map (\<lambda>(tag_key, tag_values). (tag_key, remap_postings u tag_values)) d"

subsection \<open>What remove is to leave\<close>

text \<open>
  The posting collections \<open>remove\<close> is to leave, in the words of its description:
  every posting list without the removed positions, no key whose list has become
  empty, and no tag key that has lost all its values. The positions that stay are
  not changed.
\<close>

definition without_positions :: "int set \<Rightarrow> posting_dict \<Rightarrow> posting_dict" where
  "without_positions S d =
     filter (\<lambda>(key, its). its \<noteq> []) (map (\<lambda>(key, its). (key, filter (\<lambda>p. p \<notin> S) its)) d)"

definition tags_without_positions :: "int set \<Rightarrow> tag_dict \<Rightarrow> tag_dict" where
  "tags_without_positions S d =
     filter (\<lambda>(tag_key, tag_values). tag_values \<noteq> [])
       (map (\<lambda>(tag_key, tag_values). (tag_key, without_positions S tag_values)) d)"

text \<open>
  The keys of a dict are distinct; \<open>dicts_ok\<close> says so of the three posting
  collections of an index, the value dicts of the tags included.
\<close>

definition tags_ok :: "tag_dict \<Rightarrow> bool" where
  "tags_ok d =
     (distinct (map fst d) \<and>
      list_all (\<lambda>(tag_key, tag_values). distinct (map fst tag_values)) d)"

definition dicts_ok :: "'t index \<Rightarrow> bool" where
  "dicts_ok s =
     (distinct (map fst (measurements s)) \<and> distinct (map fst (fields_idx s)) \<and> tags_ok (tags s))"

subsection \<open>The posting invariants\<close>

text \<open>
  A posting sequence is strictly ascending and duplicate-free; \<open>postings_ascending\<close>
  says so of every posting sequence of the measurements, tags and fields of an
  index, and \<open>positions_in_range\<close> says that every position of a posting sequence lies
  in \<open>[0, num_items)\<close>. \<open>index_inv\<close> adds that there is one timestamp for each item;
  \<open>insert\<close> numbers the new records from the number of timestamps.
\<close>

definition strictly_ascending :: "int list \<Rightarrow> bool" where
  "strictly_ascending its = (sorted_wrt (<) its \<and> distinct its)"

definition ascending :: "posting_dict \<Rightarrow> bool" where
  "ascending d = list_all (\<lambda>(key, its). strictly_ascending its) d"

definition tags_ascending :: "tag_dict \<Rightarrow> bool" where
  "tags_ascending d = list_all (\<lambda>(tag_key, tag_values). ascending tag_values) d"

definition postings_ascending :: "'t index \<Rightarrow> bool" where
  "postings_ascending s =
     (ascending (measurements s) \<and> tags_ascending (tags s) \<and> ascending (fields_idx s))"

definition positions_in_range :: "'t index \<Rightarrow> bool" where
  "positions_in_range s = (referenced s \<subseteq> {0..<num_items s})"

definition index_inv :: "'t index \<Rightarrow> bool" where
  "index_inv s =
     (postings_ascending s \<and> positions_in_range s \<and> num_items s = int (length (timestamps s)))"

text \<open>
  The tags and the fields of a point are dicts: their keys are distinct.
\<close>

definition wf_point :: "'t point \<Rightarrow> bool" where
  "wf_point p = (distinct (map fst (point_tags p)) \<and> distinct (map fst (point_fields p)))"

text \<open>
  A posting collection whose sequences are strictly ascending with every position in
  \<open>[0, n)\<close>.
\<close>

definition below :: "int \<Rightarrow> posting_dict \<Rightarrow> bool" where
  "below n d = list_all (\<lambda>(key, its). sorted_wrt (<) its \<and> (\<forall>p\<in>set its. 0 \<le> p \<and> p < n)) d"

definition tags_below :: "int \<Rightarrow> tag_dict \<Rightarrow> bool" where
  "tags_below n d = list_all (\<lambda>(tag_key, tag_values). below n tag_values) d"

text \<open>
  A position map that keeps the order of the positions in a set.
\<close>

definition increasing_on :: "(int \<rightharpoonup> int) \<Rightarrow> int set \<Rightarrow> bool" where
  "increasing_on u A = (\<forall>p\<in>A. \<forall>q\<in>A. p < q \<longrightarrow> the (u p) < the (u q))"

section \<open>Properties of the sorted-list primitives\<close>

lemma set_union_two_sorted_lists:
  "set (union_two_sorted_lists xs ys) = set xs \<union> set ys"
  by (induction xs ys rule: union_two_sorted_lists.induct) auto

lemma sorted_union_two_sorted_lists:
  "sorted_wrt (<) xs \<Longrightarrow> sorted_wrt (<) ys \<Longrightarrow> sorted_wrt (<) (union_two_sorted_lists xs ys)"
  by (induction xs ys rule: union_two_sorted_lists.induct)
     (auto simp: set_union_two_sorted_lists)

lemma subset_intersection_two_sorted_lists:
  "set (intersection_two_sorted_lists xs ys) \<subseteq> set xs \<inter> set ys"
  by (induction xs ys rule: intersection_two_sorted_lists.induct) auto

lemma set_intersection_two_sorted_lists:
  "sorted_wrt (<) xs \<Longrightarrow> sorted_wrt (<) ys \<Longrightarrow>
   set (intersection_two_sorted_lists xs ys) = set xs \<inter> set ys"
proof (induction xs ys rule: intersection_two_sorted_lists.induct)
  case (3 x xs y ys)
  have xs: "\<forall>a\<in>set xs. x < a" and ys: "\<forall>b\<in>set ys. y < b"
    using "3.prems" by auto
  show ?case
  proof (cases "x < y")
    case True
    then have "x \<notin> set (y # ys)" using ys by auto
    with True "3.IH"(1) "3.prems" show ?thesis by auto
  next
    case False
    show ?thesis
    proof (cases "y < x")
      case True
      then have "y \<notin> set (x # xs)" using xs by auto
      with True False "3.IH"(2) "3.prems" show ?thesis by auto
    next
      case F2: False
      with False have "x = y" by simp
      moreover have "x \<notin> set ys" "y \<notin> set xs" using xs ys \<open>x = y\<close> by auto
      ultimately show ?thesis using False F2 "3.IH"(3) "3.prems" by auto
    qed
  qed
qed simp_all

lemma sorted_intersection_two_sorted_lists:
  "sorted_wrt (<) xs \<Longrightarrow> sorted_wrt (<) (intersection_two_sorted_lists xs ys)"
proof (induction xs ys rule: intersection_two_sorted_lists.induct)
  case (3 x xs y ys)
  have "\<forall>a\<in>set (intersection_two_sorted_lists xs ys). x < a"
    using subset_intersection_two_sorted_lists [of xs ys] "3.prems" by auto
  with 3 show ?case by auto
qed simp_all

lemma subset_difference_generator_and_sorted_lists:
  "set (difference_generator_and_sorted_lists xs ys) \<subseteq> set xs"
  by (induction xs ys rule: difference_generator_and_sorted_lists.induct) auto

lemma set_difference_generator_and_sorted_lists:
  "sorted_wrt (<) xs \<Longrightarrow> sorted_wrt (<) ys \<Longrightarrow>
   set (difference_generator_and_sorted_lists xs ys) = set xs - set ys"
proof (induction xs ys rule: difference_generator_and_sorted_lists.induct)
  case (3 x xs y ys)
  have xs: "\<forall>a\<in>set xs. x < a" and ys: "\<forall>b\<in>set ys. y < b"
    using "3.prems" by auto
  show ?case
  proof (cases "x < y")
    case True
    then have "x \<notin> set (y # ys)" using ys by auto
    with True "3.IH"(1) "3.prems" show ?thesis by auto
  next
    case False
    show ?thesis
    proof (cases "y < x")
      case True
      then have "y \<notin> set (x # xs)" using xs by auto
      with True False "3.IH"(2) "3.prems" show ?thesis by auto
    next
      case F2: False
      with False have "x = y" by simp
      moreover have "x \<notin> set xs" using xs by auto
      ultimately show ?thesis using False F2 "3.IH"(3) "3.prems" by auto
    qed
  qed
qed simp_all

lemma sorted_difference_generator_and_sorted_lists:
  "sorted_wrt (<) xs \<Longrightarrow> sorted_wrt (<) (difference_generator_and_sorted_lists xs ys)"
proof (induction xs ys rule: difference_generator_and_sorted_lists.induct)
  case (3 x xs y ys)
  have "\<forall>a\<in>set (difference_generator_and_sorted_lists xs (y # ys)). x < a"
    using subset_difference_generator_and_sorted_lists [of xs "y # ys"] "3.prems" by auto
  with 3 show ?case by auto
qed simp_all

lemma sorted_range1: "sorted_wrt (<) (range1 n)"
  by (simp add: range1_def sorted_wrt_map)

lemma set_range1: "set (range1 n) = {0..<n}"
proof (intro set_eqI iffI)
  fix x assume "x \<in> set (range1 n)"
  then show "x \<in> {0..<n}" by (auto simp: range1_def)
next
  fix x assume "x \<in> {0..<n}"
  then have "nat x \<in> set [0..<nat n]" and "int (nat x) = x" by auto
  then have "int (nat x) \<in> int ` set [0..<nat n]" by (intro imageI)
  with \<open>int (nat x) = x\<close> show "x \<in> set (range1 n)" by (simp add: range1_def)
qed

lemma sorted_range2: "sorted_wrt (<) (range2 lo hi)"
  by (simp add: range2_def sorted_wrt_map)

section \<open>The result algebra\<close>

text \<open>
  Claim C3. For two results with equal \<open>index_count\<close>, the intersection and the union
  are complete exactly when both operands are complete; an incomplete operand makes
  the combination incomplete.
\<close>

theorem completeness_propagation:
  "index_count a = index_count b \<Longrightarrow>
   (is_complete (and_result a b) \<longleftrightarrow> is_complete a \<and> is_complete b) \<and>
   (is_complete (or_result a b) \<longleftrightarrow> is_complete a \<and> is_complete b) \<and>
   (\<not> is_complete a \<or> \<not> is_complete b \<longrightarrow>
      \<not> is_complete (and_result a b) \<and> \<not> is_complete (or_result a b))"
  by (simp add: and_result_def or_result_def)

theorem completeness_propagation_witness:
  "index_count \<lparr>items = [0], is_complete = True, index_count = 2\<rparr> =
     index_count \<lparr>items = [1], is_complete = False, index_count = 2\<rparr> \<and>
   \<not> is_complete (and_result \<lparr>items = [0], is_complete = True, index_count = 2\<rparr>
                       \<lparr>items = [1], is_complete = False, index_count = 2\<rparr>) \<and>
   \<not> is_complete (or_result \<lparr>items = [0], is_complete = True, index_count = 2\<rparr>
                      \<lparr>items = [1], is_complete = False, index_count = 2\<rparr>)"
  using completeness_propagation
    [of "\<lparr>items = [0], is_complete = True, index_count = 2\<rparr>"
        "\<lparr>items = [1], is_complete = False, index_count = 2\<rparr>"]
  by simp

text \<open>
  Claim C7. For a complete result whose items are strictly ascending inside
  \<open>[0, index_count)\<close>: the intersection with its complement is empty, the union with
  its complement is the whole range, and the complement of the complement has the
  items of the result.
\<close>

theorem result_algebra_laws:
  assumes "sorted_wrt (<) (items r)" and "set (items r) \<subseteq> {0..<index_count r}"
    and "is_complete r"
  shows "items (and_result r (invert r)) = [] \<and>
         items (or_result r (invert r)) = range1 (index_count r) \<and>
         items (invert (invert r)) = items r"
proof -
  let ?u = "range1 (index_count r)"
  let ?c = "difference_generator_and_sorted_lists ?u (items r)"
  have su: "sorted_wrt (<) ?u" by (rule sorted_range1)
  have sc: "sorted_wrt (<) ?c" by (rule sorted_difference_generator_and_sorted_lists [OF su])
  have setc: "set ?c = {0..<index_count r} - set (items r)"
    by (simp add: set_difference_generator_and_sorted_lists [OF su assms(1)] set_range1)
  have "set (intersection_two_sorted_lists (items r) ?c) = {}"
    by (auto simp: set_intersection_two_sorted_lists [OF assms(1) sc] setc)
  then have a: "items (and_result r (invert r)) = []"
    by (simp add: and_result_def invert_def)
  have "set (union_two_sorted_lists (items r) ?c) = set ?u"
    using assms(2) by (auto simp: set_union_two_sorted_lists setc set_range1)
  then have "union_two_sorted_lists (items r) ?c = ?u"
    using strict_sorted_equal [OF sorted_union_two_sorted_lists [OF assms(1) sc] su] by simp
  then have b: "items (or_result r (invert r)) = ?u"
    by (simp add: or_result_def invert_def)
  have "set (difference_generator_and_sorted_lists ?u ?c) = set (items r)"
    using assms(2) by (auto simp: set_difference_generator_and_sorted_lists [OF su sc] setc set_range1)
  then have "difference_generator_and_sorted_lists ?u ?c = items r"
    by (rule strict_sorted_equal [OF assms(1) sorted_difference_generator_and_sorted_lists [OF su]])
  then have c: "items (invert (invert r)) = items r"
    by (simp add: invert_def)
  from a b c show ?thesis by simp
qed

theorem result_algebra_laws_witness:
  "sorted_wrt (<) (items \<lparr>items = [1, 3], is_complete = True, index_count = 4\<rparr>) \<and>
   set (items \<lparr>items = [1, 3], is_complete = True, index_count = 4\<rparr>)
     \<subseteq> {0..<index_count \<lparr>items = [1, 3], is_complete = True, index_count = 4\<rparr>} \<and>
   is_complete \<lparr>items = [1, 3], is_complete = True, index_count = 4\<rparr> \<and>
   items (and_result \<lparr>items = [1, 3], is_complete = True, index_count = 4\<rparr>
           (invert \<lparr>items = [1, 3], is_complete = True, index_count = 4\<rparr>)) = [] \<and>
   items (or_result \<lparr>items = [1, 3], is_complete = True, index_count = 4\<rparr>
           (invert \<lparr>items = [1, 3], is_complete = True, index_count = 4\<rparr>)) = range1 4 \<and>
   items (invert (invert \<lparr>items = [1, 3], is_complete = True, index_count = 4\<rparr>)) = [1, 3]"
  using result_algebra_laws [of "\<lparr>items = [1, 3], is_complete = True, index_count = 4\<rparr>"]
  by simp

section \<open>Building the index\<close>

lemma valid_insert_fields: "valid (insert_fields i fs s) = valid s"
  by (induction i fs s rule: insert_fields.induct) simp_all

lemma valid_insert_tags: "valid (insert_tags i ts s) = valid s"
  by (induction i ts s rule: insert_tags.induct) simp_all

lemma valid_index_point: "valid (index_point i p s) = valid s"
  by (simp add: index_point_def insert_measurements_def insert_time_def
      valid_insert_fields valid_insert_tags)

lemma valid_index_points: "valid (index_points n ps s) = valid s"
  by (induction n ps s rule: index_points.induct) (simp_all add: valid_index_point)

text \<open>
  Claim C10. Whatever the prior state (an invalidated index included), \<open>build\<close> resets
  it first: the state after \<open>build(points)\<close> is the state of a fresh \<open>Index()\<close> after
  \<open>build(points)\<close>, and the index is valid.
\<close>

theorem build_discards_prior_state:
  "build points s = build points (Index True) \<and> valid (build points s)"
proof -
  have "reset s = reset (Index True)" by (simp add: reset_def Index_def)
  moreover have "valid (reset s)" by (simp add: reset_def)
  ultimately show ?thesis by (simp add: build_def valid_index_points)
qed

section \<open>Query evaluation\<close>

lemma search_helper_state: "snd (search_helper fromtimestamp q s) = s"
proof (induction q arbitrary: s)
  case (SimpleQuery attr op rhs resolver tst)
  show ?case by (simp split: sum.split)
next
  case (CompoundQuery op q1 q2)
  obtain r1 where r1: "search_helper fromtimestamp q1 s = (r1, s)"
    using CompoundQuery.IH(1) [of s] by (cases "search_helper fromtimestamp q1 s") simp
  obtain r2 where r2: "search_helper fromtimestamp q2 s = (r2, s)"
    using CompoundQuery.IH(2) [of s] by (cases "search_helper fromtimestamp q2 s") simp
  show ?case by (simp add: r1 r2 split: sum.split)
next
  case NoQuery
  show ?case by simp
qed

lemma search_helper_eq:
  "search_helper fromtimestamp q s = (fst (search_helper fromtimestamp q s), s)"
  using search_helper_state [of fromtimestamp q s]
  by (cases "search_helper fromtimestamp q s") simp



text \<open>
  Claim C2. The negation of a field leaf has the whole range \<open>[0, num_items)\<close> as its
  items and is incomplete; the negation of any other child is the complement of the
  child's result (and the child's exception when the child raises).
\<close>

theorem not_query_semantics:
  "fst (search fromtimestamp
         (CompoundQuery op_not (SimpleQuery ''_fields'' op rhs resolver tst) q2) s) =
     Inr \<lparr>items = range1 (num_items s), is_complete = False, index_count = num_items s\<rparr> \<and>
   (\<not> is_field_leaf q1 \<longrightarrow>
      fst (search fromtimestamp (CompoundQuery op_not q1 q2) s) =
        (case fst (search fromtimestamp q1 s) of
           Inl e \<Rightarrow> Inl e
         | Inr rst \<Rightarrow> Inr (invert rst)))"
proof -
  have a: "fst (search fromtimestamp
         (CompoundQuery op_not (SimpleQuery ''_fields'' op rhs resolver tst) q2) s) =
     Inr \<lparr>items = range1 (num_items s), is_complete = False, index_count = num_items s\<rparr>"
    by (simp add: search_def is_field_leaf_def)
  have b: "\<not> is_field_leaf q1 \<longrightarrow>
      fst (search fromtimestamp (CompoundQuery op_not q1 q2) s) =
        (case fst (search fromtimestamp q1 s) of
           Inl e \<Rightarrow> Inl e
         | Inr rst \<Rightarrow> Inr (invert rst))"
  proof
    assume nf: "\<not> is_field_leaf q1"
    have e1: "search_helper fromtimestamp q1 s = (fst (search_helper fromtimestamp q1 s), s)"
      by (rule search_helper_eq)
    show "fst (search fromtimestamp (CompoundQuery op_not q1 q2) s) =
        (case fst (search fromtimestamp q1 s) of
           Inl e \<Rightarrow> Inl e
         | Inr rst \<Rightarrow> Inr (invert rst))"
    proof (cases "fst (search_helper fromtimestamp q1 s)")
      case (Inl e)
      with e1 have "search_helper fromtimestamp q1 s = (Inl e, s)" by simp
      then show ?thesis by (simp add: search_def)
    next
      case (Inr r)
      with e1 have "search_helper fromtimestamp q1 s = (Inr r, s)" by simp
      then show ?thesis using nf by (simp add: search_def)
    qed
  qed
  from a b show ?thesis by simp
qed

theorem not_query_semantics_witness:
  "\<not> is_field_leaf (SimpleQuery ''_tags'' op_eq None Some (\<lambda>v. Some True)) \<and>
   fst (search Some
         (CompoundQuery op_not (SimpleQuery ''_fields'' op_eq None Some (\<lambda>v. Some True)) NoQuery)
         \<lparr>num_items = 3, tags = [], fields_idx = [(''x'', [1])], measurements = [(''m'', [0, 1, 2])],
          timestamps = [10::int, 20, 20], valid = True\<rparr>) =
     Inr \<lparr>items = [0, 1, 2], is_complete = False, index_count = 3\<rparr> \<and>
   fst (search Some
         (CompoundQuery op_not (SimpleQuery ''_tags'' op_eq None Some (\<lambda>v. Some True)) NoQuery)
         \<lparr>num_items = 3, tags = [], fields_idx = [(''x'', [1])], measurements = [(''m'', [0, 1, 2])],
          timestamps = [10::int, 20, 20], valid = True\<rparr>) =
     Inr \<lparr>items = [0, 1, 2], is_complete = True, index_count = 3\<rparr>"
  using not_query_semantics
    [of Some op_eq None Some "\<lambda>v. Some True" NoQuery
        "\<lparr>num_items = 3, tags = [], fields_idx = [(''x'', [1])], measurements = [(''m'', [0, 1, 2])],
          timestamps = [10::int, 20, 20], valid = True\<rparr>"
        "SimpleQuery ''_tags'' op_eq None Some (\<lambda>v. Some True)"]
  by (simp add: is_field_leaf_def search_def search_tags_def invert_def range1_def upt_rec)

section \<open>update\<close>

lemma positions_of_Nil [simp]: "positions_of [] = {}"
  by (simp add: positions_of_def)

lemma positions_of_Cons [simp]: "positions_of ((k, xs) # d) = set xs \<union> positions_of d"
  by (simp add: positions_of_def)

lemma tag_positions_Nil [simp]: "tag_positions [] = {}"
  by (simp add: tag_positions_def)

lemma tag_positions_Cons [simp]:
  "tag_positions ((k, vs) # d) = positions_of vs \<union> tag_positions d"
  by (simp add: tag_positions_def)

lemma lookup_items_covered:
  "set xs \<subseteq> dom u \<Longrightarrow> lookup_items u xs = Inr (map (\<lambda>p. the (u p)) xs)"
  by (induction xs) (auto split: option.split)

lemma lookup_items_uncovered:
  "\<not> set xs \<subseteq> dom u \<Longrightarrow> lookup_items u xs = Inl KeyError"
proof (induction xs)
  case Nil then show ?case by simp
next
  case (Cons x xs)
  show ?case
  proof (cases "u x")
    case None then show ?thesis by simp
  next
    case (Some j)
    then have "\<not> set xs \<subseteq> dom u" using Cons.prems by auto
    from Cons.IH [OF this] Some show ?thesis by simp
  qed
qed

lemma update_postings_covered:
  "positions_of d \<subseteq> dom u \<Longrightarrow> update_postings u d = Inr (remap_postings u d)"
proof (induction d)
  case Nil show ?case by (simp add: remap_postings_def)
next
  case (Cons kv d)
  obtain k xs where kv: "kv = (k, xs)" by (cases kv)
  from Cons.prems have c: "set xs \<subseteq> dom u" "positions_of d \<subseteq> dom u" by (auto simp: kv)
  from Cons.IH [OF c(2)] lookup_items_covered [OF c(1)] show ?case
    by (simp add: kv remap_postings_def)
qed

lemma update_postings_uncovered:
  "\<not> positions_of d \<subseteq> dom u \<Longrightarrow> update_postings u d = Inl KeyError"
proof (induction d)
  case Nil then show ?case by simp
next
  case (Cons kv d)
  obtain k xs where kv: "kv = (k, xs)" by (cases kv)
  show ?case
  proof (cases "set xs \<subseteq> dom u")
    case True
    then have "\<not> positions_of d \<subseteq> dom u" using Cons.prems by (auto simp: kv)
    from Cons.IH [OF this] lookup_items_covered [OF True] show ?thesis by (simp add: kv)
  next
    case False
    from lookup_items_uncovered [OF False] show ?thesis by (simp add: kv)
  qed
qed

lemma update_tags_loop_covered:
  "tag_positions d \<subseteq> dom u \<Longrightarrow> update_tags_loop u d = Inr (remap_tags u d)"
proof (induction d)
  case Nil show ?case by (simp add: remap_tags_def)
next
  case (Cons kv d)
  obtain k vs where kv: "kv = (k, vs)" by (cases kv)
  from Cons.prems have c: "positions_of vs \<subseteq> dom u" "tag_positions d \<subseteq> dom u"
    by (auto simp: kv)
  from Cons.IH [OF c(2)] update_postings_covered [OF c(1)] show ?case
    by (simp add: kv remap_tags_def)
qed

lemma update_tags_loop_uncovered:
  "\<not> tag_positions d \<subseteq> dom u \<Longrightarrow> update_tags_loop u d = Inl KeyError"
proof (induction d)
  case Nil then show ?case by simp
next
  case (Cons kv d)
  obtain k vs where kv: "kv = (k, vs)" by (cases kv)
  show ?case
  proof (cases "positions_of vs \<subseteq> dom u")
    case True
    then have "\<not> tag_positions d \<subseteq> dom u" using Cons.prems by (auto simp: kv)
    from Cons.IH [OF this] update_postings_covered [OF True] show ?thesis by (simp add: kv)
  next
    case False
    from update_postings_uncovered [OF False] show ?thesis by (simp add: kv)
  qed
qed

lemma update_fresh_key: "k \<notin> fst ` set al \<Longrightarrow> AList.update k v al = al @ [(k, v)]"
  by (induction al) auto

lemma update_measurements_loop_uncovered:
  "\<not> positions_of d \<subseteq> dom u \<Longrightarrow> update_measurements_loop u d new = Inl KeyError"
proof (induction d arbitrary: new)
  case Nil then show ?case by simp
next
  case (Cons kv d)
  obtain k xs where kv: "kv = (k, xs)" by (cases kv)
  show ?case
  proof (cases "set xs \<subseteq> dom u")
    case True
    then have "\<not> positions_of d \<subseteq> dom u" using Cons.prems by (auto simp: kv)
    from Cons.IH [OF this] lookup_items_covered [OF True] show ?thesis by (simp add: kv)
  next
    case False
    from lookup_items_uncovered [OF False] show ?thesis by (simp add: kv)
  qed
qed

lemma update_measurements_loop_returns:
  "positions_of d \<subseteq> dom u \<Longrightarrow> \<exists>d'. update_measurements_loop u d new = Inr d'"
proof (induction d arbitrary: new)
  case Nil show ?case by simp
next
  case (Cons kv d)
  obtain k xs where kv: "kv = (k, xs)" by (cases kv)
  from Cons.prems have c: "set xs \<subseteq> dom u" "positions_of d \<subseteq> dom u" by (auto simp: kv)
  from Cons.IH [OF c(2)] lookup_items_covered [OF c(1)] show ?case by (simp add: kv)
qed

lemma update_measurements_loop_covered:
  "positions_of d \<subseteq> dom u \<Longrightarrow> distinct (map fst d) \<Longrightarrow> fst ` set new \<inter> fst ` set d = {} \<Longrightarrow>
   update_measurements_loop u d new =
     Inr (new @ filter (\<lambda>(key, its). its \<noteq> []) (remap_postings u d))"
proof (induction d arbitrary: new)
  case Nil show ?case by (simp add: remap_postings_def)
next
  case (Cons kv d)
  obtain k xs where kv: "kv = (k, xs)" by (cases kv)
  from Cons.prems have c: "set xs \<subseteq> dom u" "positions_of d \<subseteq> dom u" by (auto simp: kv)
  from Cons.prems have dd: "distinct (map fst d)" and kd: "k \<notin> fst ` set d"
    and kn: "k \<notin> fst ` set new" and nd: "fst ` set new \<inter> fst ` set d = {}"
    by (auto simp: kv)
  let ?upd = "map (\<lambda>p. the (u p)) xs"
  show ?case
  proof (cases "xs = []")
    case True
    with Cons.IH [OF c(2) dd nd] lookup_items_covered [OF c(1)] show ?thesis
      by (simp add: kv remap_postings_def)
  next
    case False
    have n1: "AList.update k ?upd new = new @ [(k, ?upd)]" by (rule update_fresh_key [OF kn])
    have "fst ` set (new @ [(k, ?upd)]) \<inter> fst ` set d = {}" using nd kd by auto
    from Cons.IH [OF c(2) dd this] lookup_items_covered [OF c(1)] False n1 show ?thesis
      by (simp add: kv remap_postings_def)
  qed
qed

text \<open>
  Claim C8. \<open>update\<close> raises exactly when a position referenced by \<open>measurements\<close>,
  \<open>tags\<close> or \<open>fields\<close> is missing from the position map, and the exception is the
  \<open>KeyError\<close> of the lookup. When the map covers every referenced position, \<open>update\<close>
  returns the index with every position \<open>p\<close> of every posting list replaced by
  \<open>position_map[p]\<close> (the measurement dict is rebuilt key by key, its keys being
  distinct as in any dict, and a measurement with no position is left out).
\<close>

theorem update_faults_iff_position_missing:
  "((\<exists>e. update_index u s = Inl e) \<longleftrightarrow> \<not> referenced s \<subseteq> dom u) \<and>
   (\<not> referenced s \<subseteq> dom u \<longrightarrow> update_index u s = Inl KeyError) \<and>
   (referenced s \<subseteq> dom u \<and> distinct (map fst (measurements s)) \<longrightarrow>
      update_index u s =
        Inr (s\<lparr>measurements :=
                 filter (\<lambda>(key, its). its \<noteq> []) (remap_postings u (measurements s)),
               tags := remap_tags u (tags s),
               fields_idx := remap_postings u (fields_idx s)\<rparr>))"
proof -
  have unc: "update_index u s = Inl KeyError" if "\<not> referenced s \<subseteq> dom u"
  proof (cases "positions_of (measurements s) \<subseteq> dom u")
    case False
    from update_measurements_loop_uncovered [OF False] show ?thesis
      by (simp add: update_index_def update_measurements_def)
  next
    case m: True
    from update_measurements_loop_returns [OF m] obtain d'
      where d': "update_measurements_loop u (measurements s) [] = Inr d'" by blast
    show ?thesis
    proof (cases "tag_positions (tags s) \<subseteq> dom u")
      case False
      from update_tags_loop_uncovered [OF False] d' show ?thesis
        by (simp add: update_index_def update_measurements_def update_tags_def)
    next
      case t: True
      with m that have "\<not> positions_of (fields_idx s) \<subseteq> dom u"
        by (auto simp: referenced_def)
      from update_postings_uncovered [OF this] update_tags_loop_covered [OF t] d' show ?thesis
        by (simp add: update_index_def update_measurements_def update_tags_def update_fields_def)
    qed
  qed
  have cov: "\<exists>s'. update_index u s = Inr s'" if "referenced s \<subseteq> dom u"
  proof -
    from that have m: "positions_of (measurements s) \<subseteq> dom u"
      and t: "tag_positions (tags s) \<subseteq> dom u" and f: "positions_of (fields_idx s) \<subseteq> dom u"
      by (auto simp: referenced_def)
    from update_measurements_loop_returns [OF m] obtain d'
      where d': "update_measurements_loop u (measurements s) [] = Inr d'" by blast
    from d' update_tags_loop_covered [OF t] update_postings_covered [OF f] show ?thesis
      by (simp add: update_index_def update_measurements_def update_tags_def update_fields_def)
  qed
  have a: "(\<exists>e. update_index u s = Inl e) \<longleftrightarrow> \<not> referenced s \<subseteq> dom u"
  proof
    assume "\<exists>e. update_index u s = Inl e"
    then show "\<not> referenced s \<subseteq> dom u" using cov by auto
  next
    assume "\<not> referenced s \<subseteq> dom u"
    from unc [OF this] show "\<exists>e. update_index u s = Inl e" by blast
  qed
  have c: "update_index u s =
        Inr (s\<lparr>measurements :=
                 filter (\<lambda>(key, its). its \<noteq> []) (remap_postings u (measurements s)),
               tags := remap_tags u (tags s),
               fields_idx := remap_postings u (fields_idx s)\<rparr>)"
    if "referenced s \<subseteq> dom u" and dm: "distinct (map fst (measurements s))"
  proof -
    from that have m: "positions_of (measurements s) \<subseteq> dom u"
      and t: "tag_positions (tags s) \<subseteq> dom u" and f: "positions_of (fields_idx s) \<subseteq> dom u"
      by (auto simp: referenced_def)
    have "update_measurements_loop u (measurements s) [] =
      Inr ([] @ filter (\<lambda>(key, its). its \<noteq> []) (remap_postings u (measurements s)))"
      by (rule update_measurements_loop_covered [OF m dm]) simp
    with update_tags_loop_covered [OF t] update_postings_covered [OF f] show ?thesis
      by (simp add: update_index_def update_measurements_def update_tags_def update_fields_def)
  qed
  from a unc c show ?thesis by blast
qed

theorem update_faults_iff_position_missing_witness:
  "\<not> referenced \<lparr>num_items = 2, tags = [(''a'', [(''b'', [1, 2])])], fields_idx = [(''x'', [1, 2])],
        measurements = [(''m'', [1, 2])], timestamps = [20::int, 20], valid = True\<rparr> \<subseteq> dom [1 \<mapsto> 0] \<and>
   update_index [1 \<mapsto> 0]
     \<lparr>num_items = 2, tags = [(''a'', [(''b'', [1, 2])])], fields_idx = [(''x'', [1, 2])],
        measurements = [(''m'', [1, 2])], timestamps = [20::int, 20], valid = True\<rparr> = Inl KeyError \<and>
   referenced \<lparr>num_items = 2, tags = [(''a'', [(''b'', [1, 2])])], fields_idx = [(''x'', [1, 2])],
        measurements = [(''m'', [1, 2])], timestamps = [20::int, 20], valid = True\<rparr>
     \<subseteq> dom [1 \<mapsto> 0, 2 \<mapsto> 1] \<and>
   update_index [1 \<mapsto> 0, 2 \<mapsto> 1]
     \<lparr>num_items = 2, tags = [(''a'', [(''b'', [1, 2])])], fields_idx = [(''x'', [1, 2])],
        measurements = [(''m'', [1, 2])], timestamps = [20::int, 20], valid = True\<rparr> =
     Inr \<lparr>num_items = 2, tags = [(''a'', [(''b'', [0, 1])])], fields_idx = [(''x'', [0, 1])],
        measurements = [(''m'', [0, 1])], timestamps = [20::int, 20], valid = True\<rparr>"
  using update_faults_iff_position_missing
    [of "[1 \<mapsto> 0]" "\<lparr>num_items = 2, tags = [(''a'', [(''b'', [1, 2])])], fields_idx = [(''x'', [1, 2])],
        measurements = [(''m'', [1, 2])], timestamps = [20::int, 20], valid = True\<rparr>"]
    update_faults_iff_position_missing
    [of "[1 \<mapsto> 0, 2 \<mapsto> 1]" "\<lparr>num_items = 2, tags = [(''a'', [(''b'', [1, 2])])], fields_idx = [(''x'', [1, 2])],
        measurements = [(''m'', [1, 2])], timestamps = [20::int, 20], valid = True\<rparr>"]
  by (simp add: referenced_def remap_postings_def remap_tags_def)

section \<open>Binary search over ascending timestamps\<close>

lemma bisect_left_spec:
  "sorted a \<Longrightarrow> lo \<le> hi \<Longrightarrow> hi \<le> length a \<Longrightarrow>
   (\<forall>i<lo. a ! i < x) \<Longrightarrow> (\<forall>i. hi \<le> i \<and> i < length a \<longrightarrow> x \<le> a ! i) \<Longrightarrow>
   (\<forall>i<bisect_left a x lo hi. a ! i < x) \<and>
   (\<forall>i. bisect_left a x lo hi \<le> i \<and> i < length a \<longrightarrow> x \<le> a ! i) \<and>
   bisect_left a x lo hi \<le> length a"
proof (induction a x lo hi rule: bisect_left.induct)
  case (1 a x lo hi)
  show ?case
  proof (cases "lo < hi")
    case False
    have r: "bisect_left a x lo hi = lo"
      using False by (simp add: bisect_left.simps [of a x lo hi])
    from False "1.prems"(2) have "lo = hi" by simp
    with "1.prems" show ?thesis unfolding r by simp
  next
    case True
    define mid where "mid = (lo + hi) div 2"
    have m: "lo \<le> mid" "mid < hi" using True by (auto simp: mid_def)
    then have ml: "mid < length a" using "1.prems"(3) by simp
    show ?thesis
    proof (cases "a ! mid < x")
      case lt: True
      have below: "\<forall>i<mid + 1. a ! i < x"
      proof (intro allI impI)
        fix i assume "i < mid + 1"
        then have "i \<le> mid" by simp
        then have "a ! i \<le> a ! mid" using "1.prems"(1) ml by (simp add: sorted_nth_mono)
        with lt show "a ! i < x" by simp
      qed
      have eq: "bisect_left a x lo hi = bisect_left a x (mid + 1) hi"
        using True lt by (simp add: bisect_left.simps [of a x lo hi] mid_def Let_def)
      have "(\<forall>i<bisect_left a x (mid + 1) hi. a ! i < x) \<and>
        (\<forall>i. bisect_left a x (mid + 1) hi \<le> i \<and> i < length a \<longrightarrow> x \<le> a ! i) \<and>
        bisect_left a x (mid + 1) hi \<le> length a"
      proof (rule "1.IH"(1) [OF True, of mid])
        show "mid = (lo + hi) div 2" by (rule mid_def)
        show "a ! mid < x" by (rule lt)
        show "sorted a" by (rule "1.prems"(1))
        show "mid + 1 \<le> hi" using m by simp
        show "hi \<le> length a" by (rule "1.prems"(3))
        show "\<forall>i<mid + 1. a ! i < x" by (rule below)
        show "\<forall>i. hi \<le> i \<and> i < length a \<longrightarrow> x \<le> a ! i" by (rule "1.prems"(5))
      qed
      with eq show ?thesis by simp
    next
      case ge: False
      have above: "\<forall>i. mid \<le> i \<and> i < length a \<longrightarrow> x \<le> a ! i"
      proof (intro allI impI)
        fix i assume "mid \<le> i \<and> i < length a"
        then have "a ! mid \<le> a ! i" using "1.prems"(1) by (simp add: sorted_nth_mono)
        with ge show "x \<le> a ! i" by simp
      qed
      have eq: "bisect_left a x lo hi = bisect_left a x lo mid"
        using True ge by (simp add: bisect_left.simps [of a x lo hi] mid_def Let_def)
      have "(\<forall>i<bisect_left a x lo mid. a ! i < x) \<and>
        (\<forall>i. bisect_left a x lo mid \<le> i \<and> i < length a \<longrightarrow> x \<le> a ! i) \<and>
        bisect_left a x lo mid \<le> length a"
      proof (rule "1.IH"(2) [OF True, of mid])
        show "mid = (lo + hi) div 2" by (rule mid_def)
        show "\<not> a ! mid < x" by (rule ge)
        show "sorted a" by (rule "1.prems"(1))
        show "lo \<le> mid" using m by simp
        show "mid \<le> length a" using ml by simp
        show "\<forall>i<lo. a ! i < x" by (rule "1.prems"(4))
        show "\<forall>i. mid \<le> i \<and> i < length a \<longrightarrow> x \<le> a ! i" by (rule above)
      qed
      with eq show ?thesis by simp
    qed
  qed
qed

lemma bisect_right_spec:
  "sorted a \<Longrightarrow> lo \<le> hi \<Longrightarrow> hi \<le> length a \<Longrightarrow>
   (\<forall>i<lo. a ! i \<le> x) \<Longrightarrow> (\<forall>i. hi \<le> i \<and> i < length a \<longrightarrow> x < a ! i) \<Longrightarrow>
   (\<forall>i<bisect_right a x lo hi. a ! i \<le> x) \<and>
   (\<forall>i. bisect_right a x lo hi \<le> i \<and> i < length a \<longrightarrow> x < a ! i) \<and>
   bisect_right a x lo hi \<le> length a"
proof (induction a x lo hi rule: bisect_right.induct)
  case (1 a x lo hi)
  show ?case
  proof (cases "lo < hi")
    case False
    have r: "bisect_right a x lo hi = lo"
      using False by (simp add: bisect_right.simps [of a x lo hi])
    from False "1.prems"(2) have "lo = hi" by simp
    with "1.prems" show ?thesis unfolding r by simp
  next
    case True
    define mid where "mid = (lo + hi) div 2"
    have m: "lo \<le> mid" "mid < hi" using True by (auto simp: mid_def)
    then have ml: "mid < length a" using "1.prems"(3) by simp
    show ?thesis
    proof (cases "x < a ! mid")
      case gt: True
      have above: "\<forall>i. mid \<le> i \<and> i < length a \<longrightarrow> x < a ! i"
      proof (intro allI impI)
        fix i assume "mid \<le> i \<and> i < length a"
        then have "a ! mid \<le> a ! i" using "1.prems"(1) by (simp add: sorted_nth_mono)
        with gt show "x < a ! i" by simp
      qed
      have eq: "bisect_right a x lo hi = bisect_right a x lo mid"
        using True gt by (simp add: bisect_right.simps [of a x lo hi] mid_def Let_def)
      have "(\<forall>i<bisect_right a x lo mid. a ! i \<le> x) \<and>
        (\<forall>i. bisect_right a x lo mid \<le> i \<and> i < length a \<longrightarrow> x < a ! i) \<and>
        bisect_right a x lo mid \<le> length a"
      proof (rule "1.IH"(1) [OF True, of mid])
        show "mid = (lo + hi) div 2" by (rule mid_def)
        show "x < a ! mid" by (rule gt)
        show "sorted a" by (rule "1.prems"(1))
        show "lo \<le> mid" using m by simp
        show "mid \<le> length a" using ml by simp
        show "\<forall>i<lo. a ! i \<le> x" by (rule "1.prems"(4))
        show "\<forall>i. mid \<le> i \<and> i < length a \<longrightarrow> x < a ! i" by (rule above)
      qed
      with eq show ?thesis by simp
    next
      case le: False
      have below: "\<forall>i<mid + 1. a ! i \<le> x"
      proof (intro allI impI)
        fix i assume "i < mid + 1"
        then have "i \<le> mid" by simp
        then have "a ! i \<le> a ! mid" using "1.prems"(1) ml by (simp add: sorted_nth_mono)
        with le show "a ! i \<le> x" by simp
      qed
      have eq: "bisect_right a x lo hi = bisect_right a x (mid + 1) hi"
        using True le by (simp add: bisect_right.simps [of a x lo hi] mid_def Let_def)
      have "(\<forall>i<bisect_right a x (mid + 1) hi. a ! i \<le> x) \<and>
        (\<forall>i. bisect_right a x (mid + 1) hi \<le> i \<and> i < length a \<longrightarrow> x < a ! i) \<and>
        bisect_right a x (mid + 1) hi \<le> length a"
      proof (rule "1.IH"(2) [OF True, of mid])
        show "mid = (lo + hi) div 2" by (rule mid_def)
        show "\<not> x < a ! mid" by (rule le)
        show "sorted a" by (rule "1.prems"(1))
        show "mid + 1 \<le> hi" using m by simp
        show "hi \<le> length a" by (rule "1.prems"(3))
        show "\<forall>i<mid + 1. a ! i \<le> x" by (rule below)
        show "\<forall>i. hi \<le> i \<and> i < length a \<longrightarrow> x < a ! i" by (rule "1.prems"(5))
      qed
      with eq show ?thesis by simp
    qed
  qed
qed

lemma bisect_left_whole:
  assumes "sorted a"
  shows "(\<forall>i<bisect_left a x 0 (length a). a ! i < x) \<and>
    (\<forall>i. bisect_left a x 0 (length a) \<le> i \<and> i < length a \<longrightarrow> x \<le> a ! i) \<and>
    bisect_left a x 0 (length a) \<le> length a"
  by (rule bisect_left_spec [OF assms]) auto

lemma bisect_right_whole:
  assumes "sorted a"
  shows "(\<forall>i<bisect_right a x 0 (length a). a ! i \<le> x) \<and>
    (\<forall>i. bisect_right a x 0 (length a) \<le> i \<and> i < length a \<longrightarrow> x < a ! i) \<and>
    bisect_right a x 0 (length a) \<le> length a"
  by (rule bisect_right_spec [OF assms]) auto

lemma filter_upt_prefix:
  assumes "r \<le> n" and "\<forall>i<r. P i" and "\<forall>i. r \<le> i \<and> i < n \<longrightarrow> \<not> P i"
  shows "filter P [0..<n] = [0..<r]"
proof -
  have "[0..<n] = [0..<r] @ [r..<n]" using assms(1) by (metis le_add_diff_inverse upt_add_eq_append zero_le)
  moreover have "filter P [0..<r] = [0..<r]" using assms(2) by (simp add: filter_id_conv)
  moreover have "filter P [r..<n] = []" using assms(3) by (simp add: filter_empty_conv)
  ultimately show ?thesis by simp
qed

lemma filter_upt_suffix:
  assumes "r \<le> n" and "\<forall>i<r. \<not> P i" and "\<forall>i. r \<le> i \<and> i < n \<longrightarrow> P i"
  shows "filter P [0..<n] = [r..<n]"
proof -
  have "[0..<n] = [0..<r] @ [r..<n]" using assms(1) by (metis le_add_diff_inverse upt_add_eq_append zero_le)
  moreover have "filter P [0..<r] = []" using assms(2) by (simp add: filter_empty_conv)
  moreover have "filter P [r..<n] = [r..<n]" using assms(3) by (simp add: filter_id_conv)
  ultimately show ?thesis by simp
qed

lemma filter_upt_middle:
  assumes "r \<le> e" and "e \<le> n" and "\<forall>i<r. \<not> P i" and "\<forall>i. r \<le> i \<and> i < e \<longrightarrow> P i"
    and "\<forall>i. e \<le> i \<and> i < n \<longrightarrow> \<not> P i"
  shows "filter P [0..<n] = [r..<e]"
proof -
  have "[0..<n] = [0..<e] @ [e..<n]" using assms(2) by (metis le_add_diff_inverse upt_add_eq_append zero_le)
  moreover have "filter P [e..<n] = []" using assms(5) by (simp add: filter_empty_conv)
  moreover have "filter P [0..<e] = [r..<e]" by (rule filter_upt_suffix [OF assms(1) assms(3) assms(4)])
  ultimately show ?thesis by simp
qed

lemma scan_forward_takeWhile:
  "scan_forward ts x m res = res @ takeWhile (\<lambda>i. ts ! i = x) [m..<length ts]"
proof (induction ts x m res rule: scan_forward.induct)
  case (1 ts x m res)
  show ?case
  proof (cases "m < length ts")
    case False
    then show ?thesis by (simp add: scan_forward.simps [of ts x m res])
  next
    case True
    then have u: "[m..<length ts] = m # [m + 1..<length ts]" by (simp add: upt_conv_Cons)
    show ?thesis
    proof (cases "ts ! m = x")
      case False
      with True show ?thesis by (simp add: scan_forward.simps [of ts x m res] u)
    next
      case eq: True
      have "scan_forward ts x m res = scan_forward ts x (m + 1) (res @ [m])"
        using True eq by (simp add: scan_forward.simps [of ts x m res])
      also have "\<dots> = (res @ [m]) @ takeWhile (\<lambda>i. ts ! i = x) [m + 1..<length ts]"
        using "1.IH" [OF True] eq by simp
      finally show ?thesis using eq by (simp add: u)
    qed
  qed
qed

lemma takeWhile_upt_block:
  assumes "r \<le> e" and "e \<le> n" and "\<forall>i. r \<le> i \<and> i < e \<longrightarrow> P i"
    and "e < n \<longrightarrow> \<not> P e"
  shows "takeWhile P [r..<n] = [r..<e]"
proof -
  have s: "[r..<n] = [r..<e] @ [e..<n]"
    using assms(1,2) by (metis le_add_diff_inverse upt_add_eq_append)
  have "takeWhile P [e..<n] = []"
  proof (cases "e < n")
    case True
    then have "[e..<n] = e # [e + 1..<n]" by (simp add: upt_conv_Cons)
    with True assms(4) show ?thesis by simp
  next
    case False then show ?thesis by simp
  qed
  moreover have "takeWhile P ([r..<e] @ [e..<n]) = [r..<e] @ takeWhile P [e..<n]"
    by (rule takeWhile_append2) (use assms(3) in auto)
  ultimately show ?thesis using s by simp
qed

section \<open>Timestamp search\<close>

lemma range1_Suc: "range1 (int r) = map int [0..<r]"
  by (simp add: range1_def)

lemma search_timestamps_lt:
  assumes "sorted (timestamps s)"
  shows "search_timestamps fromtimestamp s op_lt (Some t) resolver tst =
    Inr (map int (filter (\<lambda>i. timestamps s ! i < t) [0..<length (timestamps s)]))"
proof -
  let ?ts = "timestamps s" and ?n = "length (timestamps s)"
  define r where "r = bisect_left ?ts t 0 ?n"
  from bisect_left_whole [OF assms, of t]
  have b: "\<forall>i<r. ?ts ! i < t" "\<forall>i. r \<le> i \<and> i < ?n \<longrightarrow> t \<le> ?ts ! i" "r \<le> ?n"
    by (simp_all add: r_def)
  have f: "filter (\<lambda>i. ?ts ! i < t) [0..<?n] = [0..<r]"
    by (rule filter_upt_prefix [OF b(3) b(1)]) (use b(2) in auto)
  show ?thesis
  proof (cases "r = 0")
    case True
    then show ?thesis by (simp add: search_timestamps_def find_lt_def r_def [symmetric] f)
  next
    case False
    then have "int (r - 1) + 1 = int r" by simp
    with False show ?thesis
      by (simp add: search_timestamps_def find_lt_def r_def [symmetric] f range1_Suc)
  qed
qed

lemma search_timestamps_le:
  assumes "sorted (timestamps s)"
  shows "search_timestamps fromtimestamp s op_le (Some t) resolver tst =
    Inr (map int (filter (\<lambda>i. timestamps s ! i \<le> t) [0..<length (timestamps s)]))"
proof -
  let ?ts = "timestamps s" and ?n = "length (timestamps s)"
  define r where "r = bisect_right ?ts t 0 ?n"
  from bisect_right_whole [OF assms, of t]
  have b: "\<forall>i<r. ?ts ! i \<le> t" "\<forall>i. r \<le> i \<and> i < ?n \<longrightarrow> t < ?ts ! i" "r \<le> ?n"
    by (simp_all add: r_def)
  have f: "filter (\<lambda>i. ?ts ! i \<le> t) [0..<?n] = [0..<r]"
    by (rule filter_upt_prefix [OF b(3) b(1)]) (use b(2) in auto)
  show ?thesis
  proof (cases "r = 0")
    case True
    then show ?thesis by (simp add: search_timestamps_def find_le_def r_def [symmetric] f)
  next
    case False
    then have "int (r - 1) + 1 = int r" by simp
    with False show ?thesis
      by (simp add: search_timestamps_def find_le_def r_def [symmetric] f range1_Suc)
  qed
qed

lemma search_timestamps_gt:
  assumes "sorted (timestamps s)"
  shows "search_timestamps fromtimestamp s op_gt (Some t) resolver tst =
    Inr (map int (filter (\<lambda>i. t < timestamps s ! i) [0..<length (timestamps s)]))"
proof -
  let ?ts = "timestamps s" and ?n = "length (timestamps s)"
  define r where "r = bisect_right ?ts t 0 ?n"
  from bisect_right_whole [OF assms, of t]
  have b: "\<forall>i<r. ?ts ! i \<le> t" "\<forall>i. r \<le> i \<and> i < ?n \<longrightarrow> t < ?ts ! i" "r \<le> ?n"
    by (simp_all add: r_def)
  have f: "filter (\<lambda>i. t < ?ts ! i) [0..<?n] = [r..<?n]"
    by (rule filter_upt_suffix [OF b(3) _ b(2)]) (use b(1) in auto)
  show ?thesis
    by (simp add: search_timestamps_def find_gt_def r_def [symmetric] f range2_def)
qed

lemma search_timestamps_ge:
  assumes "sorted (timestamps s)"
  shows "search_timestamps fromtimestamp s op_ge (Some t) resolver tst =
    Inr (map int (filter (\<lambda>i. t \<le> timestamps s ! i) [0..<length (timestamps s)]))"
proof -
  let ?ts = "timestamps s" and ?n = "length (timestamps s)"
  define r where "r = bisect_left ?ts t 0 ?n"
  from bisect_left_whole [OF assms, of t]
  have b: "\<forall>i<r. ?ts ! i < t" "\<forall>i. r \<le> i \<and> i < ?n \<longrightarrow> t \<le> ?ts ! i" "r \<le> ?n"
    by (simp_all add: r_def)
  have f: "filter (\<lambda>i. t \<le> ?ts ! i) [0..<?n] = [r..<?n]"
    by (rule filter_upt_suffix [OF b(3) _ b(2)]) (use b(1) in auto)
  show ?thesis
    by (simp add: search_timestamps_def find_ge_def r_def [symmetric] f range2_def)
qed

lemma search_timestamps_eq:
  assumes "sorted (timestamps s)"
  shows "search_timestamps fromtimestamp s op_eq (Some t) resolver tst =
    Inr (map int (filter (\<lambda>i. timestamps s ! i = t) [0..<length (timestamps s)]))"
proof -
  let ?ts = "timestamps s" and ?n = "length (timestamps s)"
  let ?P = "\<lambda>i. ?ts ! i = t"
  define r where "r = bisect_left ?ts t 0 ?n"
  define e where "e = bisect_right ?ts t 0 ?n"
  from bisect_left_whole [OF assms, of t]
  have b: "\<forall>i<r. ?ts ! i < t" "\<forall>i. r \<le> i \<and> i < ?n \<longrightarrow> t \<le> ?ts ! i" "r \<le> ?n"
    by (simp_all add: r_def)
  from bisect_right_whole [OF assms, of t]
  have c: "\<forall>i<e. ?ts ! i \<le> t" "\<forall>i. e \<le> i \<and> i < ?n \<longrightarrow> t < ?ts ! i" "e \<le> ?n"
    by (simp_all add: e_def)
  have re: "r \<le> e"
  proof (rule ccontr)
    assume "\<not> r \<le> e"
    then have "e < r" by simp
    with b(1) b(3) c(2) have "?ts ! e < t" "t < ?ts ! e" by auto
    then show False by simp
  qed
  have mid: "\<forall>i. r \<le> i \<and> i < e \<longrightarrow> ?P i"
  proof (intro allI impI)
    fix i assume i: "r \<le> i \<and> i < e"
    with c(3) have "i < ?n" by simp
    with i b(2) c(1) have "t \<le> ?ts ! i" "?ts ! i \<le> t" by auto
    then show "?ts ! i = t" by simp
  qed
  have lo: "\<forall>i<r. \<not> ?P i" using b(1) by auto
  have hi: "\<forall>i. e \<le> i \<and> i < ?n \<longrightarrow> \<not> ?P i" using c(2) by auto
  have f: "filter ?P [0..<?n] = [r..<e]"
    by (rule filter_upt_middle [OF re c(3) lo mid hi])
  show ?thesis
  proof (cases "r \<noteq> ?n \<and> ?ts ! r = t")
    case True
    then have rn: "r < ?n" using b(3) by simp
    then have u: "[r..<?n] = r # [r + 1..<?n]" by (simp add: upt_conv_Cons)
    have "scan_forward ?ts t (r + 1) [r] = [r] @ takeWhile ?P [r + 1..<?n]"
      by (rule scan_forward_takeWhile)
    also have "\<dots> = takeWhile ?P [r..<?n]" using True by (simp add: u)
    also have "\<dots> = [r..<e]"
      by (rule takeWhile_upt_block [OF re c(3) mid]) (use hi in auto)
    finally have "scan_forward ?ts t (r + 1) [r] = [r..<e]" .
    with True show ?thesis
      by (simp add: search_timestamps_def find_eq_def r_def [symmetric] f)
  next
    case False
    have "e \<le> r"
    proof (rule ccontr)
      assume "\<not> e \<le> r"
      then have re': "r < e" by simp
      with c(3) have "r < ?n" by simp
      moreover from mid re' have "?ts ! r = t" by simp
      ultimately show False using False by simp
    qed
    with re have "[r..<e] = []" by simp
    with False show ?thesis
      by (auto simp add: search_timestamps_def find_eq_def r_def [symmetric] f)
  qed
qed

lemma timestamps_insert_fields: "timestamps (insert_fields i fs s) = timestamps s"
  by (induction i fs s rule: insert_fields.induct) simp_all

lemma timestamps_insert_tags: "timestamps (insert_tags i ts s) = timestamps s"
  by (induction i ts s rule: insert_tags.induct) simp_all

lemma num_items_insert_fields: "num_items (insert_fields i fs s) = num_items s"
  by (induction i fs s rule: insert_fields.induct) simp_all

lemma num_items_insert_tags: "num_items (insert_tags i ts s) = num_items s"
  by (induction i ts s rule: insert_tags.induct) simp_all

lemma timestamps_index_point: "timestamps (index_point i p s) = timestamps s @ [time p]"
  by (simp add: index_point_def insert_measurements_def insert_time_def
      timestamps_insert_fields timestamps_insert_tags)

lemma num_items_index_point: "num_items (index_point i p s) = num_items s + 1"
  by (simp add: index_point_def insert_measurements_def insert_time_def
      num_items_insert_fields num_items_insert_tags)

lemma timestamps_index_points:
  "timestamps (index_points i ps s) = timestamps s @ map time ps"
  by (induction i ps s rule: index_points.induct) (simp_all add: timestamps_index_point)

lemma num_items_index_points:
  "num_items (index_points i ps s) = num_items s + int (length ps)"
  by (induction i ps s rule: index_points.induct) (simp_all add: num_items_index_point)

lemma timestamps_build: "timestamps (build points s) = map time points"
  by (simp add: build_def timestamps_index_points reset_def)

lemma num_items_build: "num_items (build points s) = int (length points)"
  by (simp add: build_def num_items_index_points reset_def)

text \<open>
  Claim C1. For points given to \<open>build\<close> in non-descending time order and any time
  \<open>t\<close>, \<open>search(time == t)\<close> returns the index unchanged and a complete result whose
  items are exactly the positions of the points with timestamp \<open>t\<close>, duplicates
  included, and no position when \<open>t\<close> is absent.
\<close>

theorem time_equality_round_trip:
  assumes "sorted (map time points)"
  shows "search fromtimestamp (SimpleQuery ''_time'' op_eq (Some t) resolver tst) (build points s) =
    (Inr \<lparr>items = map int (filter (\<lambda>i. time (points ! i) = t) [0..<length points]),
          is_complete = True, index_count = int (length points)\<rparr>,
     build points s)"
proof -
  have srt: "sorted (timestamps (build points s))" using assms by (simp add: timestamps_build)
  have "filter (\<lambda>i. map time points ! i = t) [0..<length points] =
        filter (\<lambda>i. time (points ! i) = t) [0..<length points]"
    by (rule filter_cong) auto
  with search_timestamps_eq [OF srt, of fromtimestamp t resolver tst] show ?thesis
    by (simp add: search_def timestamps_build num_items_build)
qed

theorem time_equality_round_trip_witness:
  "sorted (map time
     [\<lparr>time = 10::int, measurement = ''m'', point_tags = [], point_fields = [(''x'', ''1'')]\<rparr>,
      \<lparr>time = 20, measurement = ''m'', point_tags = [], point_fields = [(''x'', ''2'')]\<rparr>,
      \<lparr>time = 20, measurement = ''m'', point_tags = [], point_fields = [(''x'', ''3'')]\<rparr>]) \<and>
   fst (search Some (SimpleQuery ''_time'' op_eq (Some 20) Some (\<lambda>v. Some True))
     (build
       [\<lparr>time = 10::int, measurement = ''m'', point_tags = [], point_fields = [(''x'', ''1'')]\<rparr>,
        \<lparr>time = 20, measurement = ''m'', point_tags = [], point_fields = [(''x'', ''2'')]\<rparr>,
        \<lparr>time = 20, measurement = ''m'', point_tags = [], point_fields = [(''x'', ''3'')]\<rparr>]
       (Index True))) =
     Inr \<lparr>items = [1, 2], is_complete = True, index_count = 3\<rparr>"
  using time_equality_round_trip
    [of "[\<lparr>time = 10::int, measurement = ''m'', point_tags = [], point_fields = [(''x'', ''1'')]\<rparr>,
        \<lparr>time = 20, measurement = ''m'', point_tags = [], point_fields = [(''x'', ''2'')]\<rparr>,
        \<lparr>time = 20, measurement = ''m'', point_tags = [], point_fields = [(''x'', ''3'')]\<rparr>]"
        Some 20 Some "\<lambda>v. Some True" "Index True"]
  by (simp add: upt_rec)

text \<open>
  Claim C4. On an index with ascending timestamps, the searches \<open>time < t\<close>,
  \<open>time <= t\<close>, \<open>time > t\<close> and \<open>time >= t\<close> return complete results whose items are
  exactly the positions whose timestamp satisfies the comparison.
\<close>

theorem time_range_search:
  assumes "sorted (timestamps s)"
  shows "fst (search fromtimestamp (SimpleQuery ''_time'' op_lt (Some t) resolver tst) s) =
      Inr \<lparr>items = map int (filter (\<lambda>i. timestamps s ! i < t) [0..<length (timestamps s)]),
           is_complete = True, index_count = num_items s\<rparr> \<and>
    fst (search fromtimestamp (SimpleQuery ''_time'' op_le (Some t) resolver tst) s) =
      Inr \<lparr>items = map int (filter (\<lambda>i. timestamps s ! i \<le> t) [0..<length (timestamps s)]),
           is_complete = True, index_count = num_items s\<rparr> \<and>
    fst (search fromtimestamp (SimpleQuery ''_time'' op_gt (Some t) resolver tst) s) =
      Inr \<lparr>items = map int (filter (\<lambda>i. t < timestamps s ! i) [0..<length (timestamps s)]),
           is_complete = True, index_count = num_items s\<rparr> \<and>
    fst (search fromtimestamp (SimpleQuery ''_time'' op_ge (Some t) resolver tst) s) =
      Inr \<lparr>items = map int (filter (\<lambda>i. t \<le> timestamps s ! i) [0..<length (timestamps s)]),
           is_complete = True, index_count = num_items s\<rparr>"
  by (simp add: search_def search_timestamps_lt [OF assms] search_timestamps_le [OF assms]
      search_timestamps_gt [OF assms] search_timestamps_ge [OF assms])

theorem time_range_search_witness:
  "sorted (timestamps \<lparr>num_items = 3, tags = [], fields_idx = [], measurements = [(''m'', [0, 1, 2])],
          timestamps = [10::int, 20, 20], valid = True\<rparr>) \<and>
   fst (search Some (SimpleQuery ''_time'' op_lt (Some 20) Some (\<lambda>v. Some True))
         \<lparr>num_items = 3, tags = [], fields_idx = [], measurements = [(''m'', [0, 1, 2])],
          timestamps = [10::int, 20, 20], valid = True\<rparr>) =
     Inr \<lparr>items = [0], is_complete = True, index_count = 3\<rparr> \<and>
   fst (search Some (SimpleQuery ''_time'' op_le (Some 20) Some (\<lambda>v. Some True))
         \<lparr>num_items = 3, tags = [], fields_idx = [], measurements = [(''m'', [0, 1, 2])],
          timestamps = [10::int, 20, 20], valid = True\<rparr>) =
     Inr \<lparr>items = [0, 1, 2], is_complete = True, index_count = 3\<rparr> \<and>
   fst (search Some (SimpleQuery ''_time'' op_gt (Some 10) Some (\<lambda>v. Some True))
         \<lparr>num_items = 3, tags = [], fields_idx = [], measurements = [(''m'', [0, 1, 2])],
          timestamps = [10::int, 20, 20], valid = True\<rparr>) =
     Inr \<lparr>items = [1, 2], is_complete = True, index_count = 3\<rparr> \<and>
   fst (search Some (SimpleQuery ''_time'' op_ge (Some 20) Some (\<lambda>v. Some True))
         \<lparr>num_items = 3, tags = [], fields_idx = [], measurements = [(''m'', [0, 1, 2])],
          timestamps = [10::int, 20, 20], valid = True\<rparr>) =
     Inr \<lparr>items = [1, 2], is_complete = True, index_count = 3\<rparr>"
  using time_range_search
    [of "\<lparr>num_items = 3, tags = [], fields_idx = [], measurements = [(''m'', [0, 1, 2])],
          timestamps = [10::int, 20, 20], valid = True\<rparr>" Some 20 Some "\<lambda>v. Some True"]
    time_range_search
    [of "\<lparr>num_items = 3, tags = [], fields_idx = [], measurements = [(''m'', [0, 1, 2])],
          timestamps = [10::int, 20, 20], valid = True\<rparr>" Some 10 Some "\<lambda>v. Some True"]
  by (simp add: upt_rec)

section \<open>remove\<close>

lemma without_positions_Nil [simp]: "without_positions S [] = []"
  by (simp add: without_positions_def)

lemma without_positions_Cons:
  "without_positions S ((k, its) # d) =
     (if keep_items S its = [] then without_positions S d
      else (k, keep_items S its) # without_positions S d)"
  by (simp add: without_positions_def keep_items_def)

lemma remove_postings_acc:
  "distinct (map fst d) \<Longrightarrow> fst ` set d \<inter> fst ` set new = {} \<Longrightarrow>
   remove_postings S d new = new @ without_positions S d"
proof (induction d arbitrary: new)
  case Nil
  show ?case by simp
next
  case (Cons kv d)
  obtain k its where kv: "kv = (k, its)" by (cases kv)
  from Cons.prems kv have dd: "distinct (map fst d)" and kd: "k \<notin> fst ` set d"
    and kn: "k \<notin> fst ` set new" and dn: "fst ` set d \<inter> fst ` set new = {}"
    by auto
  show ?case
  proof (cases "keep_items S its = []")
    case True
    with Cons.IH [OF dd dn] show ?thesis by (simp add: kv without_positions_Cons)
  next
    case False
    have u: "AList.update k (keep_items S its) new = new @ [(k, keep_items S its)]"
      by (rule update_fresh_key [OF kn])
    have "fst ` set d \<inter> fst ` set (new @ [(k, keep_items S its)]) = {}"
      using dn kd by auto
    from Cons.IH [OF dd this] False show ?thesis
      by (simp add: kv without_positions_Cons u)
  qed
qed

lemma remove_postings_eq:
  "distinct (map fst d) \<Longrightarrow> remove_postings S d [] = without_positions S d"
  using remove_postings_acc [of d "[]" S] by simp

lemma update_last_key:
  "k \<notin> fst ` set al \<Longrightarrow> AList.update k v (al @ [(k, w)]) = al @ [(k, v)]"
  by (induction al) auto

lemma map_of_last_key:
  "k \<notin> fst ` set al \<Longrightarrow> map_of (al @ [(k, w)]) k = Some w"
  by (induction al) auto

lemma map_of_fresh_key: "k \<notin> fst ` set al \<Longrightarrow> map_of al k = None"
  by (simp add: map_of_eq_None_iff)

lemma remove_tag_values_open:
  "distinct (map fst vals) \<Longrightarrow> fst ` set vals \<inter> fst ` set acc = {} \<Longrightarrow>
   tk \<notin> fst ` set nt \<Longrightarrow>
   remove_tag_values S tk vals (nt @ [(tk, acc)]) = nt @ [(tk, acc @ without_positions S vals)]"
proof (induction vals arbitrary: acc)
  case Nil
  show ?case by simp
next
  case (Cons vx vals)
  obtain v its where vx: "vx = (v, its)" by (cases vx)
  from Cons.prems vx have dd: "distinct (map fst vals)" and va: "v \<notin> fst ` set acc"
    and vv: "v \<notin> fst ` set vals" and da: "fst ` set vals \<inter> fst ` set acc = {}"
    by auto
  show ?case
  proof (cases "keep_items S its = []")
    case True
    with Cons.IH [OF dd da Cons.prems(3)] show ?thesis
      by (simp add: vx without_positions_Cons)
  next
    case False
    have m: "map_of (nt @ [(tk, acc)]) tk = Some acc"
      by (rule map_of_last_key [OF Cons.prems(3)])
    have u1: "AList.update v (keep_items S its) acc = acc @ [(v, keep_items S its)]"
      by (rule update_fresh_key [OF va])
    have u2: "AList.update tk (acc @ [(v, keep_items S its)]) (nt @ [(tk, acc)]) =
        nt @ [(tk, acc @ [(v, keep_items S its)])]"
      by (rule update_last_key [OF Cons.prems(3)])
    have "fst ` set vals \<inter> fst ` set (acc @ [(v, keep_items S its)]) = {}"
      using da vv by auto
    from Cons.IH [OF dd this Cons.prems(3)] False show ?thesis
      by (simp add: vx without_positions_Cons m u1 u2 del: map_of_append)
  qed
qed

lemma remove_tag_values_fresh:
  "distinct (map fst vals) \<Longrightarrow> tk \<notin> fst ` set nt \<Longrightarrow>
   remove_tag_values S tk vals nt =
     (if without_positions S vals = [] then nt else nt @ [(tk, without_positions S vals)])"
proof (induction vals)
  case Nil
  show ?case by simp
next
  case (Cons vx vals)
  obtain v its where vx: "vx = (v, its)" by (cases vx)
  from Cons.prems vx have dd: "distinct (map fst vals)" and vv: "v \<notin> fst ` set vals"
    by auto
  show ?case
  proof (cases "keep_items S its = []")
    case True
    with Cons.IH [OF dd Cons.prems(2)] show ?thesis
      by (simp add: vx without_positions_Cons)
  next
    case False
    have m: "map_of nt tk = None" by (rule map_of_fresh_key [OF Cons.prems(2)])
    have u: "AList.update tk [(v, keep_items S its)] nt = nt @ [(tk, [(v, keep_items S its)])]"
      by (rule update_fresh_key [OF Cons.prems(2)])
    have "fst ` set vals \<inter> fst ` set [(v, keep_items S its)] = {}" using vv by auto
    from remove_tag_values_open [OF dd this Cons.prems(2)] False show ?thesis
      by (simp add: vx without_positions_Cons m u)
  qed
qed

lemma tags_without_positions_Nil [simp]: "tags_without_positions S [] = []"
  by (simp add: tags_without_positions_def)

lemma tags_without_positions_Cons:
  "tags_without_positions S ((tk, vals) # d) =
     (if without_positions S vals = [] then tags_without_positions S d
      else (tk, without_positions S vals) # tags_without_positions S d)"
  by (simp add: tags_without_positions_def)

lemma remove_tags_loop_acc:
  "tags_ok d \<Longrightarrow> fst ` set d \<inter> fst ` set nt = {} \<Longrightarrow>
   remove_tags_loop S d nt = nt @ tags_without_positions S d"
proof (induction d arbitrary: nt)
  case Nil
  show ?case by simp
next
  case (Cons kv d)
  obtain tk vals where kv: "kv = (tk, vals)" by (cases kv)
  from Cons.prems kv have ok: "tags_ok d" and dv: "distinct (map fst vals)"
    and kd: "tk \<notin> fst ` set d" and kn: "tk \<notin> fst ` set nt"
    and dn: "fst ` set d \<inter> fst ` set nt = {}"
    by (auto simp: tags_ok_def)
  show ?case
  proof (cases "without_positions S vals = []")
    case True
    with Cons.IH [OF ok dn] show ?thesis
      by (simp add: kv tags_without_positions_Cons remove_tag_values_fresh [OF dv kn])
  next
    case False
    have "fst ` set d \<inter> fst ` set (nt @ [(tk, without_positions S vals)]) = {}"
      using dn kd by auto
    from Cons.IH [OF ok this] False show ?thesis
      by (simp add: kv tags_without_positions_Cons remove_tag_values_fresh [OF dv kn])
  qed
qed

lemma remove_tags_loop_eq:
  "tags_ok d \<Longrightarrow> remove_tags_loop S d [] = tags_without_positions S d"
  using remove_tags_loop_acc [of d "[]" S] by simp

lemma remove_timestamps_nths:
  "map snd (filter (\<lambda>(i, ts). int i \<notin> S) (enumerate 0 xs)) = nths xs {i. int i \<notin> S}"
proof -
  have "filter (\<lambda>(i, ts). int i \<notin> S) (map2 (\<lambda>x y. (y, x)) xs [0..<length xs]) =
        map (\<lambda>(x, y). (y, x)) (filter (\<lambda>p. int (snd p) \<notin> S) (zip xs [0..<length xs]))"
    by (simp add: filter_map comp_def split_def)
  then show ?thesis
    by (simp add: nths_def enumerate_eq_zip zip_commute [of "[0..<length xs]" xs] comp_def split_def)
qed


lemma list_all_update:
  "list_all Q d \<Longrightarrow> Q (k, v) \<Longrightarrow> list_all Q (AList.update k v d)"
  by (induction d) auto

lemma distinct_append_posting:
  "distinct (map fst d) \<Longrightarrow> distinct (map fst (append_posting k i d))"
  by (simp add: append_posting_def distinct_update split: option.split)

lemma tags_ok_insert_tag: "tags_ok d \<Longrightarrow> tags_ok (insert_tag i tk tv d)"
proof -
  assume ok: "tags_ok d"
  let ?Q = "\<lambda>(tag_key, tag_values). distinct (map fst (tag_values :: posting_dict))"
  show ?thesis
  proof (cases "map_of d tk")
    case None
    have "?Q (tk, append_posting tv i [])" by (simp add: append_posting_def)
    with ok None show ?thesis
      by (simp add: tags_ok_def insert_tag_def distinct_update list_all_update)
  next
    case (Some vals)
    then have "(tk, vals) \<in> set d" by (rule map_of_SomeD)
    with ok have "distinct (map fst vals)" by (auto simp: tags_ok_def list_all_iff)
    then have "?Q (tk, append_posting tv i vals)" by (simp add: distinct_append_posting)
    with ok Some show ?thesis
      by (simp add: tags_ok_def insert_tag_def distinct_update list_all_update)
  qed
qed

lemma dicts_ok_insert_fields: "dicts_ok s \<Longrightarrow> dicts_ok (insert_fields i fs s)"
  by (induction i fs s rule: insert_fields.induct)
     (simp_all add: dicts_ok_def distinct_append_posting)

lemma dicts_ok_insert_tags: "dicts_ok s \<Longrightarrow> dicts_ok (insert_tags i ts s)"
  by (induction i ts s rule: insert_tags.induct)
     (simp_all add: dicts_ok_def tags_ok_insert_tag)

lemma dicts_ok_index_point: "dicts_ok s \<Longrightarrow> dicts_ok (index_point i p s)"
proof -
  assume "dicts_ok s"
  then have "dicts_ok (insert_time (time p) (s\<lparr>num_items := num_items s + 1\<rparr>))"
    by (simp add: dicts_ok_def insert_time_def)
  then have "dicts_ok (insert_fields i (point_fields p)
      (insert_tags i (point_tags p) (insert_time (time p) (s\<lparr>num_items := num_items s + 1\<rparr>))))"
    by (intro dicts_ok_insert_fields dicts_ok_insert_tags)
  then show ?thesis
    by (simp add: index_point_def insert_measurements_def dicts_ok_def distinct_append_posting)
qed

lemma dicts_ok_index_points: "dicts_ok s \<Longrightarrow> dicts_ok (index_points i ps s)"
  by (induction i ps s rule: index_points.induct) (simp_all add: dicts_ok_index_point)

lemma dicts_ok_build: "dicts_ok (build points s)"
  unfolding build_def
  by (rule dicts_ok_index_points) (simp add: dicts_ok_def tags_ok_def reset_def)

lemma remove_index_dicts_ok:
  assumes "dicts_ok s"
  shows "timestamps (remove_index S s) = nths (timestamps s) {i. int i \<notin> S}"
    and "measurements (remove_index S s) = without_positions S (measurements s)"
    and "tags (remove_index S s) = tags_without_positions S (tags s)"
    and "fields_idx (remove_index S s) = without_positions S (fields_idx s)"
    and "num_items (remove_index S s) = num_items s - int (card S)"
    and "valid (remove_index S s) = valid s"
  using assms
  by (simp_all add: remove_index_def remove_timestamps_def remove_measurements_def
      remove_tags_def remove_fields_def Let_def dicts_ok_def remove_postings_eq
      remove_tags_loop_eq remove_timestamps_nths)

lemma card_kept_positions:
  assumes "S \<subseteq> {0..<int n}"
  shows "int (card {i. i < n \<and> int i \<notin> S}) = int n - int (card S)"
proof -
  have fin: "finite S" using assms by (rule finite_subset) simp
  have nn: "\<And>x. x \<in> S \<Longrightarrow> 0 \<le> x" using assms by auto
  have inj: "inj_on nat S"
  proof (rule inj_onI)
    fix x y assume "x \<in> S" "y \<in> S" "nat x = nat y"
    with nn [of x] nn [of y] show "x = y" by simp
  qed
  have sub: "nat ` S \<subseteq> {0..<n}"
  proof
    fix i assume "i \<in> nat ` S"
    then obtain x where x: "x \<in> S" "i = nat x" by auto
    from x(1) assms have "0 \<le> x" "x < int n" by auto
    with x(2) show "i \<in> {0..<n}" by simp
  qed
  have "{i. i < n \<and> int i \<notin> S} = {0..<n} - nat ` S"
  proof (rule set_eqI)
    fix i
    show "i \<in> {i. i < n \<and> int i \<notin> S} \<longleftrightarrow> i \<in> {0..<n} - nat ` S"
    proof
      assume "i \<in> {i. i < n \<and> int i \<notin> S}"
      then have a: "i < n" "int i \<notin> S" by auto
      have "i \<notin> nat ` S"
      proof
        assume "i \<in> nat ` S"
        then obtain x where x: "x \<in> S" "i = nat x" by auto
        with assms have "0 \<le> x" by auto
        with x have "int i = x" by simp
        with a(2) x(1) show False by simp
      qed
      with a(1) show "i \<in> {0..<n} - nat ` S" by simp
    next
      assume "i \<in> {0..<n} - nat ` S"
      then have a: "i < n" "i \<notin> nat ` S" by auto
      have "int i \<notin> S"
      proof
        assume "int i \<in> S"
        then have "nat (int i) \<in> nat ` S" by (rule imageI)
        with a(2) show False by simp
      qed
      with a(1) show "i \<in> {i. i < n \<and> int i \<notin> S}" by simp
    qed
  qed
  then have "card {i. i < n \<and> int i \<notin> S} = card ({0..<n} - nat ` S)" by simp
  also have "\<dots> = card {0..<n} - card (nat ` S)"
    by (rule card_Diff_subset) (use fin sub in auto)
  also have "\<dots> = n - card S" by (simp add: card_image [OF inj])
  finally have e: "card {i. i < n \<and> int i \<notin> S} = n - card S" .
  have "card (nat ` S) \<le> card {0..<n}" by (rule card_mono) (use sub in auto)
  then have "card S \<le> n" by (simp add: card_image [OF inj])
  with e show ?thesis by simp
qed

text \<open>
  Claim C6. On an index built from a record list \<open>L\<close>, \<open>remove\<close> of a set \<open>S\<close> of
  positions within \<open>[0, num_items)\<close> leaves the timestamps without the entries at the
  indices in \<open>S\<close>, every posting list of the measurements, tags and fields without
  the members of \<open>S\<close>, no key whose posting list has become empty, the remaining
  positions as they were, and \<open>num_items\<close> smaller by the number of elements of \<open>S\<close>,
  which is then again the number of timestamps.
\<close>

theorem remove_filters_positions:
  assumes "S \<subseteq> {0..<num_items (build L s0)}"
  shows "timestamps (remove_index S (build L s0)) =
      nths (timestamps (build L s0)) {i. int i \<notin> S} \<and>
    measurements (remove_index S (build L s0)) =
      without_positions S (measurements (build L s0)) \<and>
    tags (remove_index S (build L s0)) = tags_without_positions S (tags (build L s0)) \<and>
    fields_idx (remove_index S (build L s0)) =
      without_positions S (fields_idx (build L s0)) \<and>
    num_items (remove_index S (build L s0)) = num_items (build L s0) - int (card S) \<and>
    int (length (timestamps (remove_index S (build L s0)))) =
      num_items (remove_index S (build L s0)) \<and>
    valid (remove_index S (build L s0)) = valid (build L s0)"
proof -
  let ?s = "build L s0"
  note r = remove_index_dicts_ok [OF dicts_ok_build, of S L s0]
  from assms have S: "S \<subseteq> {0..<int (length (timestamps ?s))}"
    by (simp add: num_items_build timestamps_build)
  have "int (length (timestamps (remove_index S ?s))) =
      int (length (timestamps ?s)) - int (card S)"
    by (simp add: r(1) length_nths card_kept_positions [OF S])
  then have len: "int (length (timestamps (remove_index S ?s))) = num_items (remove_index S ?s)"
    by (simp add: r(5) num_items_build timestamps_build)
  from r len show ?thesis by simp
qed

theorem remove_filters_positions_witness:
  "{1} \<subseteq> {0..<num_items (build
       [\<lparr>time = 10::int, measurement = ''cpu'', point_tags = [(''host'', ''a'')], point_fields = [(''x'', ''1'')]\<rparr>,
        \<lparr>time = 20, measurement = ''mem'', point_tags = [(''host'', ''b'')], point_fields = [(''y'', ''2'')]\<rparr>,
        \<lparr>time = 20, measurement = ''cpu'', point_tags = [(''host'', ''a''), (''dc'', ''e'')], point_fields = [(''x'', ''3'')]\<rparr>]
       (Index True))} \<and>
   timestamps (remove_index {1} (build
       [\<lparr>time = 10::int, measurement = ''cpu'', point_tags = [(''host'', ''a'')], point_fields = [(''x'', ''1'')]\<rparr>,
        \<lparr>time = 20, measurement = ''mem'', point_tags = [(''host'', ''b'')], point_fields = [(''y'', ''2'')]\<rparr>,
        \<lparr>time = 20, measurement = ''cpu'', point_tags = [(''host'', ''a''), (''dc'', ''e'')], point_fields = [(''x'', ''3'')]\<rparr>]
       (Index True))) = [10, 20] \<and>
   measurements (remove_index {1} (build
       [\<lparr>time = 10::int, measurement = ''cpu'', point_tags = [(''host'', ''a'')], point_fields = [(''x'', ''1'')]\<rparr>,
        \<lparr>time = 20, measurement = ''mem'', point_tags = [(''host'', ''b'')], point_fields = [(''y'', ''2'')]\<rparr>,
        \<lparr>time = 20, measurement = ''cpu'', point_tags = [(''host'', ''a''), (''dc'', ''e'')], point_fields = [(''x'', ''3'')]\<rparr>]
       (Index True))) = [(''cpu'', [0, 2])] \<and>
   tags (remove_index {1} (build
       [\<lparr>time = 10::int, measurement = ''cpu'', point_tags = [(''host'', ''a'')], point_fields = [(''x'', ''1'')]\<rparr>,
        \<lparr>time = 20, measurement = ''mem'', point_tags = [(''host'', ''b'')], point_fields = [(''y'', ''2'')]\<rparr>,
        \<lparr>time = 20, measurement = ''cpu'', point_tags = [(''host'', ''a''), (''dc'', ''e'')], point_fields = [(''x'', ''3'')]\<rparr>]
       (Index True))) = [(''host'', [(''a'', [0, 2])]), (''dc'', [(''e'', [2])])] \<and>
   fields_idx (remove_index {1} (build
       [\<lparr>time = 10::int, measurement = ''cpu'', point_tags = [(''host'', ''a'')], point_fields = [(''x'', ''1'')]\<rparr>,
        \<lparr>time = 20, measurement = ''mem'', point_tags = [(''host'', ''b'')], point_fields = [(''y'', ''2'')]\<rparr>,
        \<lparr>time = 20, measurement = ''cpu'', point_tags = [(''host'', ''a''), (''dc'', ''e'')], point_fields = [(''x'', ''3'')]\<rparr>]
       (Index True))) = [(''x'', [0, 2])] \<and>
   num_items (remove_index {1} (build
       [\<lparr>time = 10::int, measurement = ''cpu'', point_tags = [(''host'', ''a'')], point_fields = [(''x'', ''1'')]\<rparr>,
        \<lparr>time = 20, measurement = ''mem'', point_tags = [(''host'', ''b'')], point_fields = [(''y'', ''2'')]\<rparr>,
        \<lparr>time = 20, measurement = ''cpu'', point_tags = [(''host'', ''a''), (''dc'', ''e'')], point_fields = [(''x'', ''3'')]\<rparr>]
       (Index True))) = 2"
  using remove_filters_positions
    [of "{1}"
      "[\<lparr>time = 10::int, measurement = ''cpu'', point_tags = [(''host'', ''a'')], point_fields = [(''x'', ''1'')]\<rparr>,
        \<lparr>time = 20, measurement = ''mem'', point_tags = [(''host'', ''b'')], point_fields = [(''y'', ''2'')]\<rparr>,
        \<lparr>time = 20, measurement = ''cpu'', point_tags = [(''host'', ''a''), (''dc'', ''e'')], point_fields = [(''x'', ''3'')]\<rparr>]"
      "Index True"]
  by (simp add: build_def reset_def Index_def index_point_def insert_measurements_def
      insert_time_def insert_tag_def append_posting_def nths_Cons without_positions_def
      tags_without_positions_def)

section \<open>The posting invariants\<close>

lemma strictly_ascending_iff: "strictly_ascending its = sorted_wrt (<) its"
  by (auto simp: strictly_ascending_def strict_sorted_iff)

lemma below_Nil [simp]: "below n []"
  by (simp add: below_def)

lemma below_Cons [simp]:
  "below n ((k, its) # d) = (sorted_wrt (<) its \<and> (\<forall>p\<in>set its. 0 \<le> p \<and> p < n) \<and> below n d)"
  by (simp add: below_def)

lemma ascending_Nil [simp]: "ascending []"
  by (simp add: ascending_def)

lemma ascending_Cons [simp]:
  "ascending ((k, its) # d) = (sorted_wrt (<) its \<and> ascending d)"
  by (simp add: ascending_def strictly_ascending_iff)

lemma tags_below_Nil [simp]: "tags_below n []"
  by (simp add: tags_below_def)

lemma tags_below_Cons [simp]:
  "tags_below n ((k, vals) # d) = (below n vals \<and> tags_below n d)"
  by (simp add: tags_below_def)

lemma tags_ascending_Nil [simp]: "tags_ascending []"
  by (simp add: tags_ascending_def)

lemma tags_ascending_Cons [simp]:
  "tags_ascending ((k, vals) # d) = (ascending vals \<and> tags_ascending d)"
  by (simp add: tags_ascending_def)

lemma below_iff: "below n d = (ascending d \<and> positions_of d \<subseteq> {0..<n})"
proof (induction d)
  case Nil show ?case by simp
next
  case (Cons kv d)
  obtain k its where kv: "kv = (k, its)" by (cases kv)
  have "(\<forall>p\<in>set its. 0 \<le> p \<and> p < n) = (set its \<subseteq> {0..<n})" by auto
  with Cons.IH show ?case unfolding kv
    by (simp only: below_Cons ascending_Cons positions_of_Cons) blast
qed

lemma tags_below_iff: "tags_below n d = (tags_ascending d \<and> tag_positions d \<subseteq> {0..<n})"
proof (induction d)
  case Nil show ?case by simp
next
  case (Cons kv d)
  obtain k vals where kv: "kv = (k, vals)" by (cases kv)
  from Cons.IH below_iff [of n vals] show ?case
    unfolding kv by (simp only: tags_below_Cons tags_ascending_Cons tag_positions_Cons) blast
qed

lemma index_inv_iff:
  "index_inv s =
     (below (num_items s) (measurements s) \<and> tags_below (num_items s) (tags s) \<and>
      below (num_items s) (fields_idx s) \<and> num_items s = int (length (timestamps s)))"
  unfolding index_inv_def postings_ascending_def positions_in_range_def referenced_def
    below_iff tags_below_iff
  by blast

lemma below_mono: "n \<le> m \<Longrightarrow> below n d \<Longrightarrow> below m d"
  unfolding below_def list_all_iff by fastforce

lemma tags_below_mono: "n \<le> m \<Longrightarrow> tags_below n d \<Longrightarrow> tags_below m d"
  by (induction d) (auto intro: below_mono)

lemma posting_append:
  fixes idx :: int
  assumes "sorted_wrt (<) its" and "\<forall>p\<in>set its. 0 \<le> p \<and> p < idx" and "0 \<le> idx"
  shows "sorted_wrt (<) (its @ [idx]) \<and> (\<forall>p\<in>set (its @ [idx]). 0 \<le> p \<and> p < idx + 1)"
proof -
  from assms(1,2) have "sorted_wrt (<) (its @ [idx])" by (simp add: sorted_wrt_append)
  moreover from assms(2,3) have "\<forall>p\<in>set (its @ [idx]). 0 \<le> p \<and> p < idx + 1" by auto
  ultimately show ?thesis by simp
qed

lemma below_append_posting:
  assumes "below idx d" and "0 \<le> idx"
  shows "below (idx + 1) (append_posting k idx d)"
proof -
  let ?Q = "\<lambda>(key, its). sorted_wrt (<) its \<and> (\<forall>p\<in>set its. 0 \<le> p \<and> p < idx + 1)"
  have up: "list_all ?Q d" using below_mono [OF _ assms(1), of "idx + 1"] by (simp add: below_def)
  show ?thesis
  proof (cases "map_of d k")
    case None
    have "?Q (k, [idx])" using assms(2) by simp
    from list_all_update [OF up this] None show ?thesis
      by (simp add: append_posting_def below_def)
  next
    case (Some old)
    then have "(k, old) \<in> set d" by (rule map_of_SomeD)
    with assms(1) have "sorted_wrt (<) old" "\<forall>p\<in>set old. 0 \<le> p \<and> p < idx"
      by (auto simp: below_def list_all_iff)
    from posting_append [OF this assms(2)] have "?Q (k, old @ [idx])" by simp
    from list_all_update [OF up this] Some show ?thesis
      by (simp add: append_posting_def below_def)
  qed
qed

lemma fields_pending:
  "list_all (\<lambda>(key, its). sorted_wrt (<) its \<and> (\<forall>p\<in>set its. 0 \<le> p \<and> p < idx + 1) \<and>
      (key \<in> set (map fst fs) \<longrightarrow> (\<forall>p\<in>set its. 0 \<le> p \<and> p < idx))) (fields_idx s) \<Longrightarrow>
   distinct (map fst fs) \<Longrightarrow> 0 \<le> idx \<Longrightarrow>
   below (idx + 1) (fields_idx (insert_fields idx fs s))"
proof (induction idx fs s rule: insert_fields.induct)
  case (1 idx s)
  then show ?case by (simp add: below_def list_all_iff split_def)
next
  case (2 idx fk v rest s)
  let ?d = "fields_idx s"
  let ?Q = "\<lambda>pending (key, its). sorted_wrt (<) its \<and> (\<forall>p\<in>set its. 0 \<le> p \<and> p < idx + 1) \<and>
      (key \<in> set pending \<longrightarrow> (\<forall>p\<in>set its. 0 \<le> p \<and> p < idx))"
  from "2.prems"(2) have dr: "distinct (map fst rest)" and fr: "fk \<notin> set (map fst rest)"
    by auto
  from "2.prems"(1) have all: "\<forall>x\<in>set ?d. ?Q (fk # map fst rest) x"
    by (simp add: list_all_iff)
  have weak: "list_all (?Q (map fst rest)) ?d"
    unfolding list_all_iff
  proof
    fix x assume "x \<in> set ?d"
    with all have "?Q (fk # map fst rest) x" by blast
    then show "?Q (map fst rest) x" by (cases x) auto
  qed
  have new: "list_all (?Q (map fst rest)) (append_posting fk idx ?d)"
  proof (cases "map_of ?d fk")
    case None
    have "?Q (map fst rest) (fk, [idx])" using "2.prems"(3) fr by simp
    from list_all_update [OF weak this] None show ?thesis by (simp add: append_posting_def)
  next
    case (Some old)
    then have "(fk, old) \<in> set ?d" by (rule map_of_SomeD)
    with all have "?Q (fk # map fst rest) (fk, old)" by blast
    then have "sorted_wrt (<) old" "\<forall>p\<in>set old. 0 \<le> p \<and> p < idx" by auto
    from posting_append [OF this "2.prems"(3)] fr have "?Q (map fst rest) (fk, old @ [idx])"
      by simp
    from list_all_update [OF weak this] Some show ?thesis by (simp add: append_posting_def)
  qed
  have "below (idx + 1)
     (fields_idx (insert_fields idx rest (s\<lparr>fields_idx := append_posting fk idx ?d\<rparr>)))"
    by (rule "2.IH") (use new dr "2.prems"(3) in simp_all)
  then show ?case by simp
qed

lemma tags_pending:
  "list_all (\<lambda>(tag_key, tag_values). below (idx + 1) tag_values \<and>
      (tag_key \<in> set (map fst ts) \<longrightarrow> below idx tag_values)) (tags s) \<Longrightarrow>
   distinct (map fst ts) \<Longrightarrow> 0 \<le> idx \<Longrightarrow>
   tags_below (idx + 1) (tags (insert_tags idx ts s))"
proof (induction idx ts s rule: insert_tags.induct)
  case (1 idx s)
  then show ?case by (simp add: tags_below_def list_all_iff split_def)
next
  case (2 idx tk tv rest s)
  let ?d = "tags s"
  let ?Q = "\<lambda>pending (tag_key, tag_values). below (idx + 1) tag_values \<and>
      (tag_key \<in> set pending \<longrightarrow> below idx tag_values)"
  from "2.prems"(2) have dr: "distinct (map fst rest)" and fr: "tk \<notin> set (map fst rest)"
    by auto
  from "2.prems"(1) have all: "\<forall>x\<in>set ?d. ?Q (tk # map fst rest) x"
    by (simp add: list_all_iff)
  have weak: "list_all (?Q (map fst rest)) ?d"
    unfolding list_all_iff
  proof
    fix x assume "x \<in> set ?d"
    with all have "?Q (tk # map fst rest) x" by blast
    then show "?Q (map fst rest) x" by (cases x) auto
  qed
  have new: "list_all (?Q (map fst rest)) (insert_tag idx tk tv ?d)"
  proof (cases "map_of ?d tk")
    case None
    have "below (idx + 1) (append_posting tv idx [])"
      by (rule below_append_posting [OF _ "2.prems"(3)]) simp
    with fr have "?Q (map fst rest) (tk, append_posting tv idx [])" by simp
    from list_all_update [OF weak this] None show ?thesis by (simp add: insert_tag_def)
  next
    case (Some vals)
    then have "(tk, vals) \<in> set ?d" by (rule map_of_SomeD)
    with all have "?Q (tk # map fst rest) (tk, vals)" by blast
    then have "below idx vals" by simp
    from below_append_posting [OF this "2.prems"(3)] fr
    have "?Q (map fst rest) (tk, append_posting tv idx vals)" by simp
    from list_all_update [OF weak this] Some show ?thesis by (simp add: insert_tag_def)
  qed
  have "tags_below (idx + 1)
     (tags (insert_tags idx rest (s\<lparr>tags := insert_tag idx tk tv ?d\<rparr>)))"
    by (rule "2.IH") (use new dr "2.prems"(3) in simp_all)
  then show ?case by simp
qed

lemma measurements_insert_fields: "measurements (insert_fields i fs s) = measurements s"
  by (induction i fs s rule: insert_fields.induct) simp_all

lemma tags_insert_fields: "tags (insert_fields i fs s) = tags s"
  by (induction i fs s rule: insert_fields.induct) simp_all

lemma measurements_insert_tags: "measurements (insert_tags i ts s) = measurements s"
  by (induction i ts s rule: insert_tags.induct) simp_all

lemma fields_idx_insert_tags: "fields_idx (insert_tags i ts s) = fields_idx s"
  by (induction i ts s rule: insert_tags.induct) simp_all


lemma index_inv_index_point:
  assumes inv: "index_inv s" and wf: "wf_point p"
  shows "index_inv (index_point (num_items s) p s)"
proof -
  let ?idx = "num_items s"
  let ?s1 = "insert_time (time p) (s\<lparr>num_items := num_items s + 1\<rparr>)"
  let ?s2 = "insert_tags ?idx (point_tags p) ?s1"
  let ?s3 = "insert_fields ?idx (point_fields p) ?s2"
  from inv have m: "below ?idx (measurements s)" and t: "tags_below ?idx (tags s)"
    and f: "below ?idx (fields_idx s)" and n: "?idx = int (length (timestamps s))"
    unfolding index_inv_iff by blast+
  from n have nn: "0 \<le> ?idx" by simp
  from wf have dt: "distinct (map fst (point_tags p))" and df: "distinct (map fst (point_fields p))"
    by (simp_all add: wf_point_def)
  have t1: "tags ?s1 = tags s" and f1: "fields_idx ?s1 = fields_idx s"
    and m1: "measurements ?s1 = measurements s"
    by (simp_all add: insert_time_def)
  have "list_all (\<lambda>(tag_key, tag_values). below (?idx + 1) tag_values \<and>
      (tag_key \<in> set (map fst (point_tags p)) \<longrightarrow> below ?idx tag_values)) (tags ?s1)"
    unfolding list_all_iff t1
  proof
    fix x assume x: "x \<in> set (tags s)"
    obtain tk vals where xe: "x = (tk, vals)" by (cases x)
    from t x xe have b: "below ?idx vals" by (auto simp: tags_below_def list_all_iff)
    from below_mono [OF _ b, of "?idx + 1"] b xe
    show "case x of (tag_key, tag_values) \<Rightarrow> below (?idx + 1) tag_values \<and>
      (tag_key \<in> set (map fst (point_tags p)) \<longrightarrow> below ?idx tag_values)" by simp
  qed
  from tags_pending [OF this dt nn] have t2: "tags_below (?idx + 1) (tags ?s2)" .
  have "list_all (\<lambda>(key, its). sorted_wrt (<) its \<and> (\<forall>p\<in>set its. 0 \<le> p \<and> p < ?idx + 1) \<and>
      (key \<in> set (map fst (point_fields p)) \<longrightarrow> (\<forall>p\<in>set its. 0 \<le> p \<and> p < ?idx)))
      (fields_idx ?s2)"
    unfolding list_all_iff fields_idx_insert_tags f1
  proof
    fix x assume x: "x \<in> set (fields_idx s)"
    obtain k its where xe: "x = (k, its)" by (cases x)
    from f x xe have b: "sorted_wrt (<) its" "\<forall>p\<in>set its. 0 \<le> p \<and> p < ?idx"
      by (auto simp: below_def list_all_iff)
    from b(2) have "\<forall>p\<in>set its. 0 \<le> p \<and> p < ?idx + 1" by auto
    with b xe
    show "case x of (key, its) \<Rightarrow> sorted_wrt (<) its \<and> (\<forall>p\<in>set its. 0 \<le> p \<and> p < ?idx + 1) \<and>
      (key \<in> set (map fst (point_fields p)) \<longrightarrow> (\<forall>p\<in>set its. 0 \<le> p \<and> p < ?idx))" by simp
  qed
  from fields_pending [OF this df nn] have f3: "below (?idx + 1) (fields_idx ?s3)" .
  have m3: "measurements ?s3 = measurements s"
    by (simp add: measurements_insert_fields measurements_insert_tags m1)
  have t3: "tags ?s3 = tags ?s2" by (simp add: tags_insert_fields)
  have e: "index_point ?idx p s = insert_measurements ?idx (measurement p) ?s3"
    by (simp add: index_point_def)
  have "below (?idx + 1) (measurements (index_point ?idx p s))"
    using below_append_posting [OF m nn, of "measurement p"]
    by (simp add: e insert_measurements_def m3)
  moreover have "tags_below (?idx + 1) (tags (index_point ?idx p s))"
    using t2 by (simp add: e insert_measurements_def t3)
  moreover have "below (?idx + 1) (fields_idx (index_point ?idx p s))"
    using f3 by (simp add: e insert_measurements_def)
  moreover have "num_items (index_point ?idx p s) = ?idx + 1" by (rule num_items_index_point)
  moreover have "int (length (timestamps (index_point ?idx p s))) = ?idx + 1"
    using n by (simp add: timestamps_index_point)
  ultimately show ?thesis by (simp add: index_inv_iff)
qed

lemma index_inv_index_points:
  "index_inv s \<Longrightarrow> list_all wf_point ps \<Longrightarrow> idx = num_items s \<Longrightarrow>
   index_inv (index_points idx ps s)"
proof (induction idx ps s rule: index_points.induct)
  case (1 idx s)
  then show ?case by simp
next
  case (2 idx p ps s)
  from "2.prems" have wf: "wf_point p" "list_all wf_point ps" by simp_all
  from index_inv_index_point [OF "2.prems"(1) wf(1)] "2.prems"(3)
  have i: "index_inv (index_point idx p s)" by simp
  have "idx + 1 = num_items (index_point idx p s)"
    using "2.prems"(3) by (simp add: num_items_index_point)
  from "2.IH" [OF i wf(2) this] show ?case by simp
qed

lemma index_inv_reset: "index_inv (reset s)"
  by (simp add: index_inv_iff reset_def)

lemma index_inv_build: "list_all wf_point points \<Longrightarrow> index_inv (build points s)"
  unfolding build_def
  by (rule index_inv_index_points [OF index_inv_reset]) (simp_all add: reset_def)

lemma index_inv_insert_index:
  "index_inv s \<Longrightarrow> list_all wf_point points \<Longrightarrow> index_inv (insert_index points s)"
  unfolding insert_index_def Let_def
  by (rule index_inv_index_points) (simp_all add: index_inv_def)

lemma index_inv_invalidate: "index_inv (invalidate s)"
  by (simp add: index_inv_iff invalidate_def reset_def)

subsection \<open>remove keeps the order\<close>

lemma ascending_update:
  "ascending d \<Longrightarrow> sorted_wrt (<) v \<Longrightarrow> ascending (AList.update k v d)"
  unfolding ascending_def by (rule list_all_update) (simp_all add: strictly_ascending_iff)

lemma tags_ascending_update:
  "tags_ascending d \<Longrightarrow> ascending v \<Longrightarrow> tags_ascending (AList.update k v d)"
  unfolding tags_ascending_def by (rule list_all_update) simp_all

lemma positions_of_update:
  "positions_of (AList.update k v d) \<subseteq> set v \<union> positions_of d"
  by (induction d) auto

lemma tag_positions_update:
  "tag_positions (AList.update k v d) \<subseteq> positions_of v \<union> tag_positions d"
  by (induction d) auto

lemma ascending_map_of: "ascending d \<Longrightarrow> map_of d k = Some its \<Longrightarrow> sorted_wrt (<) its"
  by (auto simp: ascending_def list_all_iff strictly_ascending_iff dest!: map_of_SomeD)

lemma tags_ascending_map_of: "tags_ascending d \<Longrightarrow> map_of d k = Some vals \<Longrightarrow> ascending vals"
  by (auto simp: tags_ascending_def list_all_iff dest!: map_of_SomeD)

lemma tag_positions_map_of: "map_of d k = Some vals \<Longrightarrow> positions_of vals \<subseteq> tag_positions d"
  by (auto simp: tag_positions_def dest!: map_of_SomeD)

lemma sorted_keep_items: "sorted_wrt (<) its \<Longrightarrow> sorted_wrt (<) (keep_items S its)"
  by (simp add: keep_items_def sorted_wrt_filter)

lemma set_keep_items: "set (keep_items S its) = set its - S"
  by (auto simp: keep_items_def)

lemma ascending_remove_postings:
  "ascending new \<Longrightarrow> ascending d \<Longrightarrow> ascending (remove_postings S d new)"
proof (induction d arbitrary: new)
  case Nil
  then show ?case by simp
next
  case (Cons kv d)
  obtain k its where kv: "kv = (k, its)" by (cases kv)
  from Cons.prems kv have s: "sorted_wrt (<) its" and ad: "ascending d" by simp_all
  have "ascending (if keep_items S its \<noteq> [] then AList.update k (keep_items S its) new else new)"
    using Cons.prems(1) ascending_update [OF Cons.prems(1) sorted_keep_items [OF s]] by simp
  from Cons.IH [OF this ad] show ?case by (simp add: kv Let_def)
qed

lemma positions_of_remove_postings:
  "positions_of (remove_postings S d new) \<subseteq> positions_of new \<union> (positions_of d - S)"
proof (induction d arbitrary: new)
  case Nil
  show ?case by simp
next
  case (Cons kv d)
  obtain k its where kv: "kv = (k, its)" by (cases kv)
  let ?new = "if keep_items S its \<noteq> [] then AList.update k (keep_items S its) new else new"
  have "positions_of ?new \<subseteq> positions_of new \<union> (set its - S)"
    using positions_of_update [of k "keep_items S its" new] by (auto simp: set_keep_items)
  with Cons.IH [of ?new] show ?case by (auto simp: kv Let_def)
qed

lemma ascending_remove_tag_values:
  "tags_ascending nt \<Longrightarrow> ascending vals \<Longrightarrow>
   tags_ascending (remove_tag_values S tk vals nt)"
proof (induction vals arbitrary: nt)
  case Nil
  then show ?case by simp
next
  case (Cons vx vals)
  obtain v its where vx: "vx = (v, its)" by (cases vx)
  from Cons.prems vx have s: "sorted_wrt (<) its" and av: "ascending vals" by simp_all
  show ?case
  proof (cases "keep_items S its = []")
    case True
    with Cons.IH [OF Cons.prems(1) av] show ?thesis by (simp add: vx)
  next
    case False
    have "tags_ascending (case map_of nt tk of
        None \<Rightarrow> AList.update tk [(v, keep_items S its)] nt
      | Some d \<Rightarrow> AList.update tk (AList.update v (keep_items S its) d) nt)"
    proof (cases "map_of nt tk")
      case None
      have "ascending [(v, keep_items S its)]" using sorted_keep_items [OF s] by simp
      from tags_ascending_update [OF Cons.prems(1) this] None show ?thesis by simp
    next
      case (Some d)
      from tags_ascending_map_of [OF Cons.prems(1) Some] have "ascending d" .
      from ascending_update [OF this sorted_keep_items [OF s]]
      have "ascending (AList.update v (keep_items S its) d)" .
      from tags_ascending_update [OF Cons.prems(1) this] Some show ?thesis by simp
    qed
    from Cons.IH [OF this av] False show ?thesis by (simp add: vx Let_def)
  qed
qed

lemma tag_positions_remove_tag_values:
  "tag_positions (remove_tag_values S tk vals nt) \<subseteq> tag_positions nt \<union> (positions_of vals - S)"
proof (induction vals arbitrary: nt)
  case Nil
  show ?case by simp
next
  case (Cons vx vals)
  obtain v its where vx: "vx = (v, its)" by (cases vx)
  show ?case
  proof (cases "keep_items S its = []")
    case True
    with Cons.IH [of nt] show ?thesis by (auto simp: vx)
  next
    case False
    let ?nt = "case map_of nt tk of
        None \<Rightarrow> AList.update tk [(v, keep_items S its)] nt
      | Some d \<Rightarrow> AList.update tk (AList.update v (keep_items S its) d) nt"
    have "tag_positions ?nt \<subseteq> tag_positions nt \<union> (set its - S)"
    proof (cases "map_of nt tk")
      case None
      with tag_positions_update [of tk "[(v, keep_items S its)]" nt] show ?thesis
        by (auto simp: set_keep_items)
    next
      case (Some d)
      from tag_positions_map_of [OF Some] have a: "positions_of d \<subseteq> tag_positions nt" .
      have b: "positions_of (AList.update v (keep_items S its) d) \<subseteq>
          (set its - S) \<union> positions_of d"
        using positions_of_update [of v "keep_items S its" d] by (simp add: set_keep_items)
      have "tag_positions (AList.update tk (AList.update v (keep_items S its) d) nt) \<subseteq>
          positions_of (AList.update v (keep_items S its) d) \<union> tag_positions nt"
        by (rule tag_positions_update)
      with a b Some show ?thesis by auto
    qed
    moreover have "remove_tag_values S tk (vx # vals) nt = remove_tag_values S tk vals ?nt"
      using False by (simp add: vx Let_def)
    moreover note Cons.IH [of ?nt]
    ultimately show ?thesis by (auto simp: vx simp del: remove_tag_values.simps)
  qed
qed

lemma ascending_remove_tags_loop:
  "tags_ascending nt \<Longrightarrow> tags_ascending d \<Longrightarrow> tags_ascending (remove_tags_loop S d nt)"
proof (induction d arbitrary: nt)
  case Nil
  then show ?case by simp
next
  case (Cons kv d)
  obtain tk vals where kv: "kv = (tk, vals)" by (cases kv)
  from Cons.prems kv have av: "ascending vals" and ad: "tags_ascending d" by simp_all
  from Cons.IH [OF ascending_remove_tag_values [OF Cons.prems(1) av] ad] show ?case
    by (simp add: kv)
qed

lemma tag_positions_remove_tags_loop:
  "tag_positions (remove_tags_loop S d nt) \<subseteq> tag_positions nt \<union> (tag_positions d - S)"
proof (induction d arbitrary: nt)
  case Nil
  show ?case by simp
next
  case (Cons kv d)
  obtain tk vals where kv: "kv = (tk, vals)" by (cases kv)
  from Cons.IH [of "remove_tag_values S tk vals nt"]
    tag_positions_remove_tag_values [of S tk vals nt]
  show ?case by (auto simp: kv)
qed

lemma remove_index_components:
  "measurements (remove_index S s) = remove_postings S (measurements s) []"
  "tags (remove_index S s) = remove_tags_loop S (tags s) []"
  "fields_idx (remove_index S s) = remove_postings S (fields_idx s) []"
  "timestamps (remove_index S s) = nths (timestamps s) {i. int i \<notin> S}"
  "num_items (remove_index S s) = num_items s - int (card S)"
  by (simp_all add: remove_index_def remove_timestamps_def remove_measurements_def
      remove_tags_def remove_fields_def Let_def remove_timestamps_nths)

lemma postings_ascending_remove_index:
  "postings_ascending s \<Longrightarrow> postings_ascending (remove_index S s)"
  by (simp add: postings_ascending_def remove_index_components ascending_remove_postings
      ascending_remove_tags_loop)

lemma referenced_remove_index: "referenced (remove_index S s) \<subseteq> referenced s - S"
  using positions_of_remove_postings [of S "measurements s" "[]"]
    positions_of_remove_postings [of S "fields_idx s" "[]"]
    tag_positions_remove_tags_loop [of S "tags s" "[]"]
  by (auto simp: referenced_def remove_index_components)

lemma length_remove_index:
  assumes "num_items s = int (length (timestamps s))" and "S \<subseteq> {0..<num_items s}"
  shows "num_items (remove_index S s) = int (length (timestamps (remove_index S s)))"
proof -
  from assms have "S \<subseteq> {0..<int (length (timestamps s))}" by simp
  from card_kept_positions [OF this] assms(1) show ?thesis
    by (simp add: remove_index_components length_nths)
qed

subsection \<open>update with an order-keeping map\<close>

lemma lookup_items_Inr:
  "lookup_items u xs = Inr ys \<Longrightarrow> ys = map (\<lambda>p. the (u p)) xs"
proof (cases "set xs \<subseteq> dom u")
  case True
  assume "lookup_items u xs = Inr ys"
  with lookup_items_covered [OF True] show ?thesis by simp
next
  case False
  assume "lookup_items u xs = Inr ys"
  with lookup_items_uncovered [OF False] show ?thesis by simp
qed

lemma update_postings_Inr:
  "update_postings u d = Inr d' \<Longrightarrow> d' = remap_postings u d"
proof (cases "positions_of d \<subseteq> dom u")
  case True
  assume "update_postings u d = Inr d'"
  with update_postings_covered [OF True] show ?thesis by simp
next
  case False
  assume "update_postings u d = Inr d'"
  with update_postings_uncovered [OF False] show ?thesis by simp
qed

lemma update_tags_loop_Inr:
  "update_tags_loop u d = Inr d' \<Longrightarrow> d' = remap_tags u d"
proof (cases "tag_positions d \<subseteq> dom u")
  case True
  assume "update_tags_loop u d = Inr d'"
  with update_tags_loop_covered [OF True] show ?thesis by simp
next
  case False
  assume "update_tags_loop u d = Inr d'"
  with update_tags_loop_uncovered [OF False] show ?thesis by simp
qed

lemma increasing_on_subset: "increasing_on u A \<Longrightarrow> B \<subseteq> A \<Longrightarrow> increasing_on u B"
  unfolding increasing_on_def by blast

lemma sorted_remap:
  assumes "sorted_wrt (<) xs" and "increasing_on u (set xs)"
  shows "sorted_wrt (<) (map (\<lambda>p. the (u p)) xs)"
proof -
  have "sorted_wrt (\<lambda>p q. the (u p) < the (u q)) xs"
    by (rule sorted_wrt_mono_rel [OF _ assms(1)]) (use assms(2) in \<open>auto simp: increasing_on_def\<close>)
  then show ?thesis by (simp add: sorted_wrt_map)
qed

lemma remap_postings_Nil [simp]: "remap_postings u [] = []"
  by (simp add: remap_postings_def)

lemma remap_postings_Cons [simp]:
  "remap_postings u ((k, its) # d) = (k, map (\<lambda>p. the (u p)) its) # remap_postings u d"
  by (simp add: remap_postings_def)

lemma remap_tags_Nil [simp]: "remap_tags u [] = []"
  by (simp add: remap_tags_def)

lemma remap_tags_Cons [simp]:
  "remap_tags u ((k, vals) # d) = (k, remap_postings u vals) # remap_tags u d"
  by (simp add: remap_tags_def)

lemma ascending_remap_postings:
  "ascending d \<Longrightarrow> increasing_on u (positions_of d) \<Longrightarrow> ascending (remap_postings u d)"
proof (induction d)
  case Nil
  show ?case by simp
next
  case (Cons kv d)
  obtain k its where kv: "kv = (k, its)" by (cases kv)
  from Cons.prems kv have s: "sorted_wrt (<) its" and ad: "ascending d" by simp_all
  from Cons.prems(2) have i1: "increasing_on u (set its)" and i2: "increasing_on u (positions_of d)"
    by (auto simp: kv intro: increasing_on_subset)
  from sorted_remap [OF s i1] Cons.IH [OF ad i2] show ?case by (simp add: kv)
qed

lemma positions_of_remap_postings:
  "positions_of (remap_postings u d) = (\<lambda>p. the (u p)) ` positions_of d"
proof (induction d)
  case Nil
  show ?case by simp
next
  case (Cons kv d)
  obtain k its where kv: "kv = (k, its)" by (cases kv)
  from Cons.IH show ?case by (simp add: kv image_Un)
qed

lemma tags_ascending_remap_tags:
  "tags_ascending d \<Longrightarrow> increasing_on u (tag_positions d) \<Longrightarrow> tags_ascending (remap_tags u d)"
proof (induction d)
  case Nil
  show ?case by simp
next
  case (Cons kv d)
  obtain k vals where kv: "kv = (k, vals)" by (cases kv)
  from Cons.prems kv have s: "ascending vals" and ad: "tags_ascending d" by simp_all
  from Cons.prems(2) have i1: "increasing_on u (positions_of vals)"
    and i2: "increasing_on u (tag_positions d)"
    by (auto simp: kv intro: increasing_on_subset)
  from ascending_remap_postings [OF s i1] Cons.IH [OF ad i2] show ?case by (simp add: kv)
qed

lemma tag_positions_remap_tags:
  "tag_positions (remap_tags u d) = (\<lambda>p. the (u p)) ` tag_positions d"
proof (induction d)
  case Nil
  show ?case by simp
next
  case (Cons kv d)
  obtain k vals where kv: "kv = (k, vals)" by (cases kv)
  from Cons.IH show ?case by (simp add: kv image_Un positions_of_remap_postings)
qed

lemma update_measurements_loop_Inr:
  "update_measurements_loop u d new = Inr d' \<Longrightarrow> ascending new \<Longrightarrow> ascending d \<Longrightarrow>
   increasing_on u (positions_of d) \<Longrightarrow>
   ascending d' \<and> positions_of d' \<subseteq> positions_of new \<union> (\<lambda>p. the (u p)) ` positions_of d"
proof (induction d arbitrary: new)
  case Nil
  then show ?case by simp
next
  case (Cons kv d)
  obtain k its where kv: "kv = (k, its)" by (cases kv)
  from Cons.prems(3) kv have s: "sorted_wrt (<) its" and ad: "ascending d" by simp_all
  from Cons.prems(4) have i1: "increasing_on u (set its)" and i2: "increasing_on u (positions_of d)"
    by (auto simp: kv intro: increasing_on_subset)
  from Cons.prems(1) obtain ys where ys: "lookup_items u its = Inr ys"
    by (cases "lookup_items u its") (simp_all add: kv)
  from lookup_items_Inr [OF ys] have ye: "ys = map (\<lambda>p. the (u p)) its" .
  let ?new = "if ys \<noteq> [] then AList.update k ys new else new"
  from Cons.prems(1) ys have r: "update_measurements_loop u d ?new = Inr d'" by (simp add: kv)
  have sy: "sorted_wrt (<) ys" unfolding ye by (rule sorted_remap [OF s i1])
  have an: "ascending ?new" using Cons.prems(2) ascending_update [OF Cons.prems(2) sy] by simp
  have pn: "positions_of ?new \<subseteq> positions_of new \<union> (\<lambda>p. the (u p)) ` set its"
    using positions_of_update [of k ys new] by (auto simp: ye)
  from Cons.IH [OF r an ad i2] pn show ?case by (auto simp: kv)
qed

lemma update_index_Inr:
  assumes "update_index u s = Inr s'"
  shows "\<exists>m. update_measurements_loop u (measurements s) [] = Inr m \<and>
    s' = s\<lparr>measurements := m, tags := remap_tags u (tags s),
           fields_idx := remap_postings u (fields_idx s)\<rparr>"
proof -
  from assms obtain s1 where s1: "update_measurements u s = Inr s1"
    by (cases "update_measurements u s") (simp_all add: update_index_def)
  then obtain m where m: "update_measurements_loop u (measurements s) [] = Inr m"
    and e1: "s1 = s\<lparr>measurements := m\<rparr>"
    by (cases "update_measurements_loop u (measurements s) []")
       (auto simp: update_measurements_def)
  from assms s1 obtain s2 where s2: "update_tags u s1 = Inr s2"
    by (cases "update_tags u s1") (simp_all add: update_index_def)
  then obtain t where t: "update_tags_loop u (tags s1) = Inr t" and e2: "s2 = s1\<lparr>tags := t\<rparr>"
    by (cases "update_tags_loop u (tags s1)") (auto simp: update_tags_def)
  from assms s1 s2 have s3: "update_fields u s2 = Inr s'" by (simp add: update_index_def)
  then obtain f where f: "update_postings u (fields_idx s2) = Inr f"
    and e3: "s' = s2\<lparr>fields_idx := f\<rparr>"
    by (cases "update_postings u (fields_idx s2)") (auto simp: update_fields_def)
  from update_tags_loop_Inr [OF t] e1 have te: "t = remap_tags u (tags s)" by simp
  from update_postings_Inr [OF f] e1 e2 have fe: "f = remap_postings u (fields_idx s)" by simp
  from m e1 e2 e3 te fe show ?thesis by simp
qed

lemma update_index_invariants:
  assumes r: "update_index u s = Inr s'" and a: "postings_ascending s"
    and i: "increasing_on u (referenced s)"
  shows "postings_ascending s'" and "referenced s' \<subseteq> (\<lambda>p. the (u p)) ` referenced s"
    and "num_items s' = num_items s" and "timestamps s' = timestamps s"
proof -
  from update_index_Inr [OF r] obtain m
    where m: "update_measurements_loop u (measurements s) [] = Inr m"
      and e: "s' = s\<lparr>measurements := m, tags := remap_tags u (tags s),
           fields_idx := remap_postings u (fields_idx s)\<rparr>" by blast
  from a have am: "ascending (measurements s)" and at: "tags_ascending (tags s)"
    and af: "ascending (fields_idx s)" by (simp_all add: postings_ascending_def)
  from i have im: "increasing_on u (positions_of (measurements s))"
    and it: "increasing_on u (tag_positions (tags s))"
    and "if": "increasing_on u (positions_of (fields_idx s))"
    by (auto simp: referenced_def intro: increasing_on_subset)
  from update_measurements_loop_Inr [OF m _ am im]
  have mm: "ascending m" "positions_of m \<subseteq> (\<lambda>p. the (u p)) ` positions_of (measurements s)"
    by simp_all
  show "postings_ascending s'"
    using mm(1) tags_ascending_remap_tags [OF at it] ascending_remap_postings [OF af "if"]
    by (simp add: e postings_ascending_def)
  show "referenced s' \<subseteq> (\<lambda>p. the (u p)) ` referenced s"
    using mm(2) by (auto simp: e referenced_def positions_of_remap_postings
        tag_positions_remap_tags)
  show "num_items s' = num_items s" by (simp add: e)
  show "timestamps s' = timestamps s" by (simp add: e)
qed

subsection \<open>The items of a search result\<close>

lemma sorted_scan_test:
  "scan_test ft resolver tst idx ts found = Inr its \<Longrightarrow> sorted_wrt (<) found \<Longrightarrow>
   \<forall>p\<in>set found. p < int idx \<Longrightarrow> sorted_wrt (<) its"
proof (induction ts arbitrary: idx found)
  case Nil
  then show ?case by simp
next
  case (Cons t ts)
  from Cons.prems(1) obtain d where d: "ft t = Some d"
    by (cases "ft t") simp_all
  from Cons.prems(1) d obtain v where v: "resolver (PTime d) = Some v"
    by (cases "resolver (PTime d)") simp_all
  from Cons.prems(1) d v obtain b where b: "tst v = Some b"
    by (cases "tst v") simp_all
  let ?found = "if b then found @ [int idx] else found"
  from Cons.prems(1) d v b have r: "scan_test ft resolver tst (idx + 1) ts ?found = Inr its"
    by simp
  have s: "sorted_wrt (<) ?found" using Cons.prems(2,3) by (simp add: sorted_wrt_append)
  have "\<forall>p\<in>set ?found. p < int (idx + 1)" using Cons.prems(3) by auto
  from Cons.IH [OF r s this] show ?case .
qed

lemma sorted_scan_forward: "sorted_wrt (<) (map int (scan_forward ts x (m + 1) [m]))"
proof -
  have "sorted_wrt (<) ([m] @ takeWhile (\<lambda>i. ts ! i = x) [m + 1..<length ts])"
  proof -
    have "sorted_wrt (<) (takeWhile (\<lambda>i. ts ! i = x) [m + 1..<length ts])"
      by (rule sorted_wrt_takeWhile) simp
    moreover have "\<forall>i\<in>set (takeWhile (\<lambda>i. ts ! i = x) [m + 1..<length ts]). m < i"
    proof
      fix i assume "i \<in> set (takeWhile (\<lambda>i. ts ! i = x) [m + 1..<length ts])"
      then have "i \<in> set [m + 1..<length ts]" by (rule set_takeWhileD [THEN conjunct1])
      then show "m < i" by simp
    qed
    ultimately show ?thesis by simp
  qed
  then have "sorted_wrt (<) (scan_forward ts x (m + 1) [m])"
    by (simp only: scan_forward_takeWhile)
  then have "sorted_wrt (\<lambda>a b. int a < int b) (scan_forward ts x (m + 1) [m])" by simp
  then show ?thesis by (simp only: sorted_wrt_map)
qed

lemma sorted_search_timestamps:
  assumes "search_timestamps ft s op rhs resolver tst = Inr its"
  shows "sorted_wrt (<) its"
proof (cases op)
  case op_eq
  with assms sorted_scan_forward show ?thesis
    by (auto simp: search_timestamps_def split: option.splits)
next
  case op_ne
  with assms sorted_difference_generator_and_sorted_lists [OF sorted_range1] sorted_range1
  show ?thesis by (auto simp: search_timestamps_def split: option.splits)
next
  case op_lt
  with assms sorted_range1 show ?thesis
    by (auto simp: search_timestamps_def split: option.splits)
next
  case op_le
  with assms sorted_range1 show ?thesis
    by (auto simp: search_timestamps_def split: option.splits)
next
  case op_gt
  with assms sorted_range2 show ?thesis
    by (auto simp: search_timestamps_def split: option.splits)
next
  case op_ge
  with assms sorted_range2 show ?thesis
    by (auto simp: search_timestamps_def split: option.splits)
next
  case op_other
  with assms have "scan_test ft resolver tst 0 (timestamps s) [] = Inr its"
    by (simp add: search_timestamps_def)
  from sorted_scan_test [OF this] show ?thesis by simp
qed

lemma sorted_search_measurement_loop:
  "search_measurement_loop resolver tst d rst = Inr its \<Longrightarrow> sorted_wrt (<) rst \<Longrightarrow>
   ascending d \<Longrightarrow> sorted_wrt (<) its"
proof (induction d arbitrary: rst)
  case Nil
  then show ?case by simp
next
  case (Cons kv d)
  obtain k xs where kv: "kv = (k, xs)" by (cases kv)
  from Cons.prems(3) kv have sx: "sorted_wrt (<) xs" and ad: "ascending d" by simp_all
  from Cons.prems(1) obtain v where v: "resolver (PStr k) = Some v"
    by (cases "resolver (PStr k)") (simp_all add: kv)
  from Cons.prems(1) v obtain b where b: "tst v = Some b"
    by (cases "tst v") (simp_all add: kv)
  let ?rst = "if b then union_two_sorted_lists rst xs else rst"
  from Cons.prems(1) v b have r: "search_measurement_loop resolver tst d ?rst = Inr its"
    by (simp add: kv)
  have "sorted_wrt (<) ?rst"
    using Cons.prems(2) sorted_union_two_sorted_lists [OF Cons.prems(2) sx] by simp
  from Cons.IH [OF r this ad] show ?case .
qed

lemma sorted_search_tag_values:
  "search_tag_values resolver tst tk vals rst = Inr its \<Longrightarrow> sorted_wrt (<) rst \<Longrightarrow>
   ascending vals \<Longrightarrow> sorted_wrt (<) its"
proof (induction vals arbitrary: rst)
  case Nil
  then show ?case by simp
next
  case (Cons vx vals)
  obtain v xs where vx: "vx = (v, xs)" by (cases vx)
  from Cons.prems(3) vx have sx: "sorted_wrt (<) xs" and ad: "ascending vals" by simp_all
  show ?case
  proof (cases "resolver (PDict [(tk, v)])")
    case None
    with Cons.prems(1) have "search_tag_values resolver tst tk vals rst = Inr its"
      by (simp add: vx)
    from Cons.IH [OF this Cons.prems(2) ad] show ?thesis .
  next
    case (Some tv)
    with Cons.prems(1) obtain b where b: "tst tv = Some b"
      by (cases "tst tv") (simp_all add: vx)
    let ?rst = "if b then union_two_sorted_lists rst xs else rst"
    from Cons.prems(1) Some b have r: "search_tag_values resolver tst tk vals ?rst = Inr its"
      by (simp add: vx)
    have "sorted_wrt (<) ?rst"
      using Cons.prems(2) sorted_union_two_sorted_lists [OF Cons.prems(2) sx] by simp
    from Cons.IH [OF r this ad] show ?thesis .
  qed
qed

lemma sorted_search_tags_loop:
  "search_tags_loop resolver tst d rst = Inr its \<Longrightarrow> sorted_wrt (<) rst \<Longrightarrow>
   tags_ascending d \<Longrightarrow> sorted_wrt (<) its"
proof (induction d arbitrary: rst)
  case Nil
  then show ?case by simp
next
  case (Cons kv d)
  obtain tk vals where kv: "kv = (tk, vals)" by (cases kv)
  from Cons.prems(3) kv have av: "ascending vals" and ad: "tags_ascending d" by simp_all
  from Cons.prems(1) obtain rst' where r1: "search_tag_values resolver tst tk vals rst = Inr rst'"
    by (cases "search_tag_values resolver tst tk vals rst") (simp_all add: kv)
  with Cons.prems(1) have r2: "search_tags_loop resolver tst d rst' = Inr its" by (simp add: kv)
  from Cons.IH [OF r2 sorted_search_tag_values [OF r1 Cons.prems(2) av] ad] show ?case .
qed

lemma sorted_search_fields_loop:
  "sorted_wrt (<) rst \<Longrightarrow> ascending d \<Longrightarrow>
   sorted_wrt (<) (search_fields_loop resolver d rst)"
proof (induction d arbitrary: rst)
  case Nil
  then show ?case by simp
next
  case (Cons kv d)
  obtain k xs where kv: "kv = (k, xs)" by (cases kv)
  from Cons.prems(2) kv have sx: "sorted_wrt (<) xs" and ad: "ascending d" by simp_all
  show ?case
  proof (cases "resolver (PDict [(k, [])])")
    case None
    with Cons.IH [OF Cons.prems(1) ad] show ?thesis by (simp add: kv)
  next
    case (Some v)
    with Cons.IH [OF sorted_union_two_sorted_lists [OF Cons.prems(1) sx] ad] show ?thesis
      by (simp add: kv)
  qed
qed

lemma sorted_search_helper:
  "postings_ascending s \<Longrightarrow> fst (search_helper ft q s) = Inr r \<Longrightarrow> sorted_wrt (<) (items r)"
proof (induction q arbitrary: r)
  case (SimpleQuery attr op rhs resolver tst)
  from SimpleQuery.prems(1) have am: "ascending (measurements s)"
    and at: "tags_ascending (tags s)" and af: "ascending (fields_idx s)"
    by (simp_all add: postings_ascending_def)
  consider (t) "attr = ''_time''" | (m) "attr \<noteq> ''_time''" "attr = ''_measurement''"
    | (g) "attr \<noteq> ''_time''" "attr \<noteq> ''_measurement''" "attr = ''_tags''"
    | (f) "attr \<noteq> ''_time''" "attr \<noteq> ''_measurement''" "attr \<noteq> ''_tags''" "attr = ''_fields''"
    | (o) "attr \<noteq> ''_time''" "attr \<noteq> ''_measurement''" "attr \<noteq> ''_tags''" "attr \<noteq> ''_fields''"
    by blast
  then show ?case
  proof cases
    case t
    with SimpleQuery.prems(2) obtain its
      where i: "search_timestamps ft s op rhs resolver tst = Inr its" and "items r = its"
      by (cases "search_timestamps ft s op rhs resolver tst") auto
    with sorted_search_timestamps [OF i] show ?thesis by simp
  next
    case m
    with SimpleQuery.prems(2) obtain its
      where i: "search_measurement_loop resolver tst (measurements s) [] = Inr its"
        and "items r = its"
      by (cases "search_measurement_loop resolver tst (measurements s) []")
         (auto simp: search_measurement_def)
    with sorted_search_measurement_loop [OF i _ am] show ?thesis by simp
  next
    case g
    with SimpleQuery.prems(2) obtain its
      where i: "search_tags_loop resolver tst (tags s) [] = Inr its" and "items r = its"
      by (cases "search_tags_loop resolver tst (tags s) []") (auto simp: search_tags_def)
    with sorted_search_tags_loop [OF i _ at] show ?thesis by simp
  next
    case f
    with SimpleQuery.prems(2) have "items r = search_fields_loop resolver (fields_idx s) []"
      by (auto simp: search_fields_def)
    with sorted_search_fields_loop [OF _ af, of "[]" resolver] show ?thesis by simp
  next
    case o
    with SimpleQuery.prems(2) show ?thesis by simp
  qed
next
  case (CompoundQuery op q1 q2)
  have e1: "search_helper ft q1 s = (fst (search_helper ft q1 s), s)" by (rule search_helper_eq)
  have e2: "search_helper ft q2 s = (fst (search_helper ft q2 s), s)" by (rule search_helper_eq)
  consider (a) "op = op_and" | (o) "op = op_or" | (n) "op = op_not" | (u) "op = op_unknown"
    by (cases op) auto
  then show ?case
  proof cases
    case a
    show ?thesis
    proof (cases "fst (search_helper ft q1 s)")
      case (Inl e)
      with e1 have "search_helper ft q1 s = (Inl e, s)" by simp
      with CompoundQuery.prems(2) a show ?thesis by simp
    next
      case (Inr r1)
      with e1 have s1: "search_helper ft q1 s = (Inr r1, s)" by simp
      from CompoundQuery.IH(1) [OF CompoundQuery.prems(1) Inr]
      have so1: "sorted_wrt (<) (items r1)" .
      show ?thesis
      proof (cases "fst (search_helper ft q2 s)")
        case (Inl e)
        with e2 have "search_helper ft q2 s = (Inl e, s)" by simp
        with CompoundQuery.prems(2) a s1 show ?thesis by simp
      next
        case r2: (Inr r2)
        with e2 have s2: "search_helper ft q2 s = (Inr r2, s)" by simp
        from CompoundQuery.prems(2) a s1 s2 have "r = and_result r1 r2" by simp
        with sorted_intersection_two_sorted_lists [OF so1] show ?thesis
          by (simp add: and_result_def)
      qed
    qed
  next
    case o
    show ?thesis
    proof (cases "fst (search_helper ft q1 s)")
      case (Inl e)
      with e1 have "search_helper ft q1 s = (Inl e, s)" by simp
      with CompoundQuery.prems(2) o show ?thesis by simp
    next
      case (Inr r1)
      with e1 have s1: "search_helper ft q1 s = (Inr r1, s)" by simp
      from CompoundQuery.IH(1) [OF CompoundQuery.prems(1) Inr]
      have so1: "sorted_wrt (<) (items r1)" .
      show ?thesis
      proof (cases "fst (search_helper ft q2 s)")
        case (Inl e)
        with e2 have "search_helper ft q2 s = (Inl e, s)" by simp
        with CompoundQuery.prems(2) o s1 show ?thesis by simp
      next
        case r2: (Inr r2)
        with e2 have s2: "search_helper ft q2 s = (Inr r2, s)" by simp
        from CompoundQuery.IH(2) [OF CompoundQuery.prems(1) r2]
        have so2: "sorted_wrt (<) (items r2)" .
        from CompoundQuery.prems(2) o s1 s2 have "r = or_result r1 r2" by simp
        with sorted_union_two_sorted_lists [OF so1 so2] show ?thesis
          by (simp add: or_result_def)
      qed
    qed
  next
    case n
    show ?thesis
    proof (cases "fst (search_helper ft q1 s)")
      case (Inl e)
      with e1 have "search_helper ft q1 s = (Inl e, s)" by simp
      with CompoundQuery.prems(2) n show ?thesis by simp
    next
      case (Inr r1)
      with e1 have s1: "search_helper ft q1 s = (Inr r1, s)" by simp
      show ?thesis
      proof (cases "is_field_leaf q1")
        case True
        with CompoundQuery.prems(2) n s1 have "items r = range1 (num_items s)" by auto
        with sorted_range1 show ?thesis by simp
      next
        case False
        with CompoundQuery.prems(2) n s1 have "r = invert r1" by simp
        with sorted_difference_generator_and_sorted_lists [OF sorted_range1] show ?thesis
          by (simp add: invert_def)
      qed
    qed
  next
    case u
    with CompoundQuery.prems(2) show ?thesis by simp
  qed
next
  case NoQuery
  then show ?case by simp
qed

subsection \<open>An index of three points\<close>

lemma example_build:
  "build
     [\<lparr>time = 10::int, measurement = ''cpu'', point_tags = [(''host'', ''a'')], point_fields = [(''x'', ''1'')]\<rparr>,
      \<lparr>time = 20, measurement = ''mem'', point_tags = [(''host'', ''b'')], point_fields = [(''x'', ''1'')]\<rparr>,
      \<lparr>time = 30, measurement = ''cpu'', point_tags = [(''host'', ''a'')], point_fields = [(''x'', ''1'')]\<rparr>]
     (Index True) =
   \<lparr>num_items = 3, tags = [(''host'', [(''a'', [0, 2]), (''b'', [1])])],
      fields_idx = [(''x'', [0, 1, 2])], measurements = [(''cpu'', [0, 2]), (''mem'', [1])],
      timestamps = [10::int, 20, 30], valid = True\<rparr>"
  by (simp add: build_def reset_def Index_def index_point_def insert_measurements_def insert_time_def insert_tag_def append_posting_def)

lemma example_remove:
  "remove_index {0}
     \<lparr>num_items = 3, tags = [(''host'', [(''a'', [0, 2]), (''b'', [1])])],
      fields_idx = [(''x'', [0, 1, 2])], measurements = [(''cpu'', [0, 2]), (''mem'', [1])],
      timestamps = [10::int, 20, 30], valid = True\<rparr> =
   \<lparr>num_items = 2, tags = [(''host'', [(''a'', [2]), (''b'', [1])])],
      fields_idx = [(''x'', [1, 2])], measurements = [(''cpu'', [2]), (''mem'', [1])],
      timestamps = [20::int, 30], valid = True\<rparr>"
  by (simp add: remove_index_def remove_timestamps_def remove_measurements_def remove_tags_def remove_fields_def keep_items_def Let_def)

lemma example_insert:
  "insert_index [\<lparr>time = 40::int, measurement = ''cpu'', point_tags = [(''host'', ''a'')], point_fields = [(''x'', ''1'')]\<rparr>]
     \<lparr>num_items = 2, tags = [(''host'', [(''a'', [2]), (''b'', [1])])],
      fields_idx = [(''x'', [1, 2])], measurements = [(''cpu'', [2]), (''mem'', [1])],
      timestamps = [20::int, 30], valid = True\<rparr> =
   \<lparr>num_items = 3, tags = [(''host'', [(''a'', [2, 2]), (''b'', [1])])],
      fields_idx = [(''x'', [1, 2, 2])], measurements = [(''cpu'', [2, 2]), (''mem'', [1])],
      timestamps = [20::int, 30, 40], valid = True\<rparr>"
  by (simp add: insert_index_def index_point_def insert_measurements_def insert_time_def
      insert_tag_def append_posting_def)

lemma example_swap:
  "update_index [0 \<mapsto> 2, 1 \<mapsto> 1, 2 \<mapsto> 0]
     \<lparr>num_items = 3, tags = [(''host'', [(''a'', [0, 2]), (''b'', [1])])],
      fields_idx = [(''x'', [0, 1, 2])], measurements = [(''cpu'', [0, 2]), (''mem'', [1])],
      timestamps = [10::int, 20, 30], valid = True\<rparr> =
   Inr \<lparr>num_items = 3, tags = [(''host'', [(''a'', [2, 0]), (''b'', [1])])],
      fields_idx = [(''x'', [2, 1, 0])], measurements = [(''cpu'', [2, 0]), (''mem'', [1])],
      timestamps = [10::int, 20, 30], valid = True\<rparr>"
  by (simp add: update_index_def update_measurements_def update_tags_def update_fields_def)

lemma example_compact:
  "update_index [1 \<mapsto> 0, 2 \<mapsto> 1]
     \<lparr>num_items = 2, tags = [(''host'', [(''a'', [2]), (''b'', [1])])],
      fields_idx = [(''x'', [1, 2])], measurements = [(''cpu'', [2]), (''mem'', [1])],
      timestamps = [20::int, 30], valid = True\<rparr> =
   Inr \<lparr>num_items = 2, tags = [(''host'', [(''a'', [1]), (''b'', [0])])],
      fields_idx = [(''x'', [0, 1])], measurements = [(''cpu'', [1]), (''mem'', [0])],
      timestamps = [20::int, 30], valid = True\<rparr>"
  by (simp add: update_index_def update_measurements_def update_tags_def update_fields_def)

lemma example_search:
  "fst (search Some
      (CompoundQuery op_not
       (SimpleQuery ''_measurement'' op_eq None Some (\<lambda>v. Some (v = PStr ''cpu''))) NoQuery)
     \<lparr>num_items = 3, tags = [(''host'', [(''a'', [0, 2]), (''b'', [1])])],
      fields_idx = [(''x'', [0, 1, 2])], measurements = [(''cpu'', [0, 2]), (''mem'', [1])],
      timestamps = [10::int, 20, 30], valid = True\<rparr>) =
   Inr \<lparr>items = [1], is_complete = True, index_count = 3\<rparr>"
  by (simp add: search_def search_measurement_def is_field_leaf_def invert_def range1_def upt_rec)




end
